theory Spec2Isabelle
  imports Complex_Main "HOL-Library.Word" "HOL-Library.Sublist" "HOL-Library.Log_Nat"
begin

section \<open>JavaScript values used by the client\<close>

text \<open>
  A JavaScript string is a sequence of UTF-16 code units; \<open>length\<close>, indexing,
  \<open>split('')\<close> and \<open>slice\<close> all count code units.
\<close>

type_synonym jschar = "16 word"
type_synonym jsstring = "jschar list"

text \<open>An ASCII literal of the source, as code units.\<close>

definition str :: "string \<Rightarrow> jsstring" where
  "str s = map (\<lambda>c. of_nat (of_char c)) s"

text \<open>
  The characters matched by the regular expression class \<open>\s\<close> and stripped by
  \<open>String.prototype.trim\<close>: ECMAScript WhiteSpace and LineTerminator.
\<close>

definition is_ws :: "jschar \<Rightarrow> bool" where
  "is_ws c \<longleftrightarrow>
     c = 0x0009 \<or> c = 0x000A \<or> c = 0x000B \<or> c = 0x000C \<or> c = 0x000D \<or>
     c = 0x0020 \<or> c = 0x00A0 \<or> c = 0x1680 \<or> (0x2000 \<le> c \<and> c \<le> 0x200A) \<or>
     c = 0x2028 \<or> c = 0x2029 \<or> c = 0x202F \<or> c = 0x205F \<or> c = 0x3000 \<or>
     c = 0xFEFF"

definition trim :: "jsstring \<Rightarrow> jsstring" where
  "trim s = rev (dropWhile is_ws (rev (dropWhile is_ws s)))"

text \<open>
  \<open>s.split(/\s+/)\<close>: the pieces between maximal runs of whitespace. The empty string
  gives one empty piece; a leading or trailing run gives an empty first or last piece.
\<close>

function split_ws :: "jsstring \<Rightarrow> jsstring list" where
  "split_ws s =
     (let w = takeWhile (\<lambda>c. \<not> is_ws c) s;
          rest = dropWhile (\<lambda>c. \<not> is_ws c) s
      in if rest = [] then [w] else w # split_ws (dropWhile is_ws rest))"
  by pat_completeness auto
termination
proof (relation "measure length")
  show "wf (measure length)" by simp
next
  fix s :: jsstring and w rest
  assume rest: "rest = dropWhile (\<lambda>c. \<not> is_ws c) s" and ne: "rest \<noteq> []"
  from ne obtain c cs where cs: "rest = c # cs" by (cases rest) auto
  have "is_ws c"
    using rest cs dropWhile_eq_Cons_conv [of "\<lambda>c. \<not> is_ws c" s c cs] by simp
  then have "length (dropWhile is_ws rest) \<le> length cs"
    using cs length_dropWhile_le [of is_ws cs] by simp
  also have "length cs < length rest" using cs by simp
  also have "length rest \<le> length s"
    using rest length_dropWhile_le [of "\<lambda>c. \<not> is_ws c" s] by simp
  finally show "(dropWhile is_ws rest, s) \<in> measure length" by simp
qed

declare split_ws.simps [simp del]

text \<open>\<open>text[idx]\<close>: the code unit at an index, \<open>undefined\<close> out of range.\<close>

definition char_at :: "jsstring \<Rightarrow> nat \<Rightarrow> jschar option" where
  "char_at s i = (if i < length s then Some (s ! i) else None)"

text \<open>
  A JavaScript number, as far as the client's arithmetic needs it: NaN, the two
  infinities and the finite values. A finite value is given by the rational it denotes.
\<close>

datatype jsnum = NaN | NegInf | Fin rat | PosInf

text \<open>
  The finite numbers are IEEE-754 doubles, and every arithmetic operation of the source
  (\<open>-\<close>, \<open>/\<close>, \<open>*\<close>) returns the double nearest to the exact result, a tie going to
  the double whose last bit is even. \<open>rne\<close> rounds a rational to the nearest integer, ties
  to even; \<open>expo x\<close> is the binary exponent of a positive \<open>x\<close>, the \<open>e\<close> with
  \<open>2^e \<le> x < 2^(e+1)\<close>; \<open>fl x\<close> is \<open>x\<close> rounded to 53 significant bits. The exponent
  range is not bounded: a double overflows only from \<open>2^1024\<close> on and loses bits only below
  \<open>2^-1022\<close>, and the quotients and products the client forms from clock readings in
  milliseconds and from string lengths stay far inside that range.
\<close>

definition rne :: "rat \<Rightarrow> int" where
  "rne x =
     (let f = \<lfloor>x\<rfloor>; r = x - of_int f
      in if r < 1 / 2 then f else if 1 / 2 < r then f + 1 else if even f then f else f + 1)"

definition expo :: "rat \<Rightarrow> int" where
  "expo x = (if 1 \<le> x then bitlen \<lfloor>x\<rfloor> - 1 else - bitlen (\<lceil>1 / x\<rceil> - 1))"

definition fl :: "rat \<Rightarrow> rat" where
  "fl x =
     (if x = 0 then 0
      else let u = 2 powi (expo \<bar>x\<bar> - 52)
           in sgn x * of_int (rne (\<bar>x\<bar> / u)) * u)"

text \<open>\<open>a <= b\<close> on numbers: false as soon as one side is NaN.\<close>

fun js_le :: "jsnum \<Rightarrow> jsnum \<Rightarrow> bool" where
  "js_le NaN _ = False"
| "js_le _ NaN = False"
| "js_le NegInf _ = True"
| "js_le _ PosInf = True"
| "js_le (Fin a) (Fin b) = (a \<le> b)"
| "js_le (Fin a) NegInf = False"
| "js_le PosInf (Fin b) = False"
| "js_le PosInf NegInf = False"

text \<open>\<open>Math.max(a, b)\<close> and \<open>Math.min(a, b)\<close>: NaN if an argument is NaN.\<close>

definition math_max :: "jsnum \<Rightarrow> jsnum \<Rightarrow> jsnum" where
  "math_max a b = (if a = NaN \<or> b = NaN then NaN else if js_le a b then b else a)"

definition math_min :: "jsnum \<Rightarrow> jsnum \<Rightarrow> jsnum" where
  "math_min a b = (if a = NaN \<or> b = NaN then NaN else if js_le a b then a else b)"


text \<open>Truthiness of a number: \<open>0\<close> and NaN are falsy.\<close>

definition truthy_num :: "jsnum \<Rightarrow> bool" where
  "truthy_num x \<longleftrightarrow> x \<noteq> NaN \<and> x \<noteq> Fin 0"

text \<open>
  \<open>(currentIndex / text.length) * 100\<close> on two non-negative integers: \<open>0 / 0\<close> is NaN and
  \<open>n / 0\<close> is \<open>Infinity\<close> for positive \<open>n\<close>; otherwise the quotient is rounded, and then
  the product.
\<close>

definition percent_of :: "nat \<Rightarrow> nat \<Rightarrow> jsnum" where
  "percent_of idx len =
     (if len = 0 then (if idx = 0 then NaN else PosInf)
      else Fin (fl (fl (of_nat idx / of_nat len) * 100)))"


section \<open>TypingInterface\<close>

record typing_stats =
  wpm :: int
  accuracy :: int
  timeTaken :: rat
  correctChars :: int
  incorrectChars :: int
  totalChars :: int

text \<open>
  \<open>calculateStats(typed, currentIdx, start)\<close> of the component whose passage is \<open>text\<close>.
  The function reads the clock twice: \<open>now1\<close> for the words per minute and \<open>now2\<close> for
  the time taken. Each subtraction, division and multiplication is a double operation and
  rounds its result; the counts are integers and exact. \<open>Math.round\<close> gives the nearest
  integer, a half going up, as \<open>round\<close> does.
\<close>

definition calculateStats ::
  "jsstring \<Rightarrow> int \<Rightarrow> int \<Rightarrow> jsstring \<Rightarrow> nat \<Rightarrow> int \<Rightarrow> typing_stats" where
  "calculateStats text now1 now2 typed currentIdx start =
     (let timeElapsed = fl (fl (fl (of_int now1 - of_int start) / 1000) / 60);
          wordsTyped = int (length (split_ws (trim typed)));
          w = (if timeElapsed > 0 then round (fl (of_int wordsTyped / timeElapsed)) else 0);
          correct = int (length (filter (\<lambda>(idx, ch). char_at text idx = Some ch)
                                        (enumerate 0 typed)));
          total = int (length typed);
          acc = (if total > 0 then round (fl (fl (of_int correct / of_int total) * 100))
                 else 100)
      in \<lparr> wpm = w, accuracy = acc, timeTaken = fl (fl (of_int now2 - of_int start) / 1000),
           correctChars = correct, incorrectChars = total - correct,
           totalChars = total \<rparr>)"

text \<open>
  The component's state: the text typed so far, the index of the next character and the
  time of the first key press (\<open>null\<close> before it). The per-character highlighting and
  the displayed statistics are presentation and are left out.
\<close>

record typing_state =
  typedText :: jsstring
  currentIndex :: nat
  startTime :: "int option"

text \<open>The state after mounting, and after the passage changes.\<close>

definition initial_typing :: typing_state where
  "initial_typing = \<lparr> typedText = [], currentIndex = 0, startTime = None \<rparr>"

text \<open>Truthiness of \<open>startTime\<close>: \<open>null\<close> and \<open>0\<close> are falsy.\<close>

definition started :: "int option \<Rightarrow> bool" where
  "started t = (case t of None \<Rightarrow> False | Some v \<Rightarrow> v \<noteq> 0)"

text \<open>
  \<open>handleKeyPress\<close> for the key \<open>e.key\<close>, in a component with passage \<open>text\<close> and flag
  \<open>isActive\<close>. The result is the state after the handler's updates and the argument of
  the \<open>onComplete\<close> call, if the handler makes one. Every test of \<open>startTime\<close>,
  \<open>typedText\<close> and \<open>currentIndex\<close> in the handler reads the value of the render the
  handler belongs to, that is of the state before the key press. \<open>nowS\<close>, \<open>now1\<close> and
  \<open>now2\<close> are the clock readings of \<open>setStartTime(Date.now())\<close> and of calculateStats.
\<close>

definition handleKeyPress ::
  "jsstring \<Rightarrow> bool \<Rightarrow> int \<Rightarrow> int \<Rightarrow> int \<Rightarrow> jsstring \<Rightarrow> typing_state
     \<Rightarrow> typing_state \<times> typing_stats option" where
  "handleKeyPress text isActive nowS now1 now2 key st =
     (if \<not> isActive then (st, None)
      else
        let st1 = (if \<not> started (startTime st) then st\<lparr>startTime := Some nowS\<rparr> else st)
        in
          if key = str ''Backspace'' then
            (if currentIndex st > 0
             then (st1\<lparr>typedText := butlast (typedText st),
                       currentIndex := currentIndex st - 1\<rparr>, None)
             else (st1, None))
          else if length key > 1 then (st1, None)
          else if currentIndex st \<ge> length text then
            (st1,
             case startTime st of
               None \<Rightarrow> None
             | Some t \<Rightarrow>
                 if t \<noteq> 0
                 then Some (calculateStats text now1 now2 (typedText st) (currentIndex st) t)
                 else None)
          else
            let newTypedText = typedText st @ key;
                newIndex = currentIndex st + 1
            in (st1\<lparr>typedText := newTypedText, currentIndex := newIndex\<rparr>,
                case startTime st of
                  None \<Rightarrow> None
                | Some t \<Rightarrow>
                    if newIndex \<ge> length text \<and> t \<noteq> 0
                    then Some (calculateStats text now1 now2 newTypedText newIndex t)
                    else None))"

text \<open>
  The 100 ms interval: it runs only once \<open>startTime\<close> is set and while the component is
  active, and passes \<open>(currentIndex / text.length) * 100\<close> to \<open>onProgressUpdate\<close>.
\<close>

definition interval_progress :: "jsstring \<Rightarrow> bool \<Rightarrow> typing_state \<Rightarrow> jsnum option" where
  "interval_progress text isActive st =
     (if \<not> started (startTime st) \<or> \<not> isActive then None
      else Some (percent_of (currentIndex st) (length text)))"

section \<open>MultiplayerRace\<close>

datatype status = Waiting | Countdown | Racing | Finished

text \<open>\<open>RaceUser\<close>, with \<open>stats\<close> as the triple of wpm, accuracy and timeTaken.\<close>

record race_user =
  user_id :: jsstring
  user_name :: jsstring
  user_progress :: jsnum
  user_finished :: "bool option"
  user_rank :: "jsnum option"
  user_stats :: "(jsnum \<times> jsnum \<times> jsnum) option"

record lobby_state =
  users :: "race_user list"
  countdown :: jsnum
  status :: status

text \<open>A standings entry: rank, username, wpm, accuracy, timeTaken.\<close>

type_synonym standing = "jsnum \<times> jsstring \<times> jsnum \<times> jsnum \<times> jsnum"

text \<open>
  The component's state. \<open>socket\<close> is true once the socket object has been stored
  (the state is \<open>null\<close> before).
\<close>

record race_client =
  socket :: bool
  lobbyState :: lobby_state
  raceText :: jsstring
  raceStartTime :: "jsnum option"
  raceResults :: "(standing list \<times> bool) option"
  username :: jsstring
  isConnected :: bool
  isReconnecting :: bool
  connectionError :: "jsstring option"
  myRank :: "jsnum option"
  hasJoined :: bool
  currentStandings :: "standing list"
  wasInLobby :: bool

text \<open>
  The messages the component emits: \<open>joinLobby\<close> with the username and whether the
  payload carries \<open>reconnect: true\<close>, \<open>progressUpdate\<close>, \<open>raceFinished\<close> with finalWPM,
  finalAccuracy and timeTaken, and \<open>leaveLobby\<close>. The component emits no other event.
\<close>

datatype client_msg =
    JoinLobby jsstring bool
  | ProgressUpdate jsnum
  | RaceFinished jsnum jsnum jsnum
  | LeaveLobby

text \<open>Truthiness of a number that may be \<open>null\<close>.\<close>

definition truthy_opt :: "jsnum option \<Rightarrow> bool" where
  "truthy_opt x = (case x of None \<Rightarrow> False | Some v \<Rightarrow> truthy_num v)"

text \<open>The handler of the socket's \<open>connect\<close> event.\<close>

definition on_connect :: "race_client \<Rightarrow> race_client \<times> client_msg list" where
  "on_connect c =
     (c\<lparr>isConnected := True, isReconnecting := False, connectionError := None\<rparr>,
      if wasInLobby c \<and> trim (username c) \<noteq> [] \<and> hasJoined c
      then [JoinLobby (trim (username c)) True] else [])"

definition joinLobby :: "race_client \<Rightarrow> race_client \<times> client_msg list" where
  "joinLobby c =
     (if socket c \<and> trim (username c) \<noteq> [] \<and> isConnected c
      then (c\<lparr>hasJoined := True, wasInLobby := True\<rparr>, [JoinLobby (trim (username c)) False])
      else (c, []))"

definition handleProgressUpdate :: "jsnum \<Rightarrow> race_client \<Rightarrow> race_client \<times> client_msg list" where
  "handleProgressUpdate progress c =
     (if socket c \<and> status (lobbyState c) = Racing \<and> isConnected c
      then (let validatedProgress = math_max (Fin 0) (math_min (Fin 100) progress)
            in (c, [ProgressUpdate validatedProgress]))
      else (c, []))"








text \<open>The handler of \<open>opponentProgress\<close>.\<close>

definition on_opponentProgress :: "jsstring \<Rightarrow> jsnum \<Rightarrow> race_client \<Rightarrow> race_client" where
  "on_opponentProgress userId progress c =
     c\<lparr>lobbyState := (lobbyState c)
          \<lparr>users := map (\<lambda>user. if user_id user = userId
                                 then user\<lparr>user_progress := progress\<rparr> else user)
                        (users (lobbyState c))\<rparr>\<rparr>"

text \<open>
  The progress the client holds for the user with a given id, if it has such a user, and
  the values it holds for that user over a sequence of opponentProgress messages, each
  given by its \<open>userId\<close> and \<open>progress\<close>: the value before the first message and the
  value after each message.
\<close>

definition progress_of :: "jsstring \<Rightarrow> race_client \<Rightarrow> jsnum option" where
  "progress_of u c =
     map_option user_progress (find (\<lambda>x. user_id x = u) (users (lobbyState c)))"

fun observed :: "jsstring \<Rightarrow> race_client \<Rightarrow> (jsstring \<times> jsnum) list \<Rightarrow> jsnum option list" where
  "observed u c [] = [progress_of u c]"
| "observed u c ((v, p) # ms) = progress_of u c # observed u (on_opponentProgress v p c) ms"

text \<open>\<open>Array.prototype.join\<close> on an array of strings.\<close>

fun join :: "jsstring \<Rightarrow> jsstring list \<Rightarrow> jsstring" where
  "join sep [] = []"
| "join sep [x] = x"
| "join sep (x # y # ys) = x @ sep @ join sep (y # ys)"

text \<open>The handler of \<open>raceTimeout\<close>; \<open>unfinishedUsers\<close> is optional.\<close>

definition on_raceTimeout ::
  "jsstring \<Rightarrow> jsstring list option \<Rightarrow> race_client \<Rightarrow> race_client" where
  "on_raceTimeout message unfinishedUsers c =
     (case unfinishedUsers of
        Some us \<Rightarrow>
          if length us > 0
          then c\<lparr>connectionError :=
                    Some (message @ str ''. Some players did not finish: '' @ join (str '', '') us)\<rparr>
          else c\<lparr>connectionError :=
                    Some (if message \<noteq> [] then message else str ''Race time limit reached.'')\<rparr>
      | None \<Rightarrow>
          c\<lparr>connectionError :=
               Some (if message \<noteq> [] then message else str ''Race time limit reached.'')\<rparr>)"

text \<open>
  The \<open>onClick\<close> of the Race Again button: seven state setters and no call on the
  socket. What the render after it does to the socket is \<open>rerender\<close>, below.
\<close>

definition raceAgainClick :: "race_client \<Rightarrow> race_client \<times> client_msg list" where
  "raceAgainClick c =
     (c\<lparr>raceResults := None, raceText := [], raceStartTime := None, myRank := None,
        hasJoined := False, currentStandings := [],
        lobbyState := \<lparr> users = [], countdown = Fin 0, status = Waiting \<rparr>\<rparr>,
      [])"

text \<open>
  The socket effect has the dependencies \<open>[wasInLobby, username, hasJoined]\<close>. When a
  handler has changed the state, React renders again, and if one of the dependencies
  differs from the previous render it runs the cleanup of the previous effect, which
  closes the socket (\<open>newSocket.close()\<close>), and then the effect, which opens a new
  connection (\<open>io(serverUrl, ...)\<close>), stores the new socket and registers the listeners
  anew. So the flags that the \<open>connect\<close> listener reads are always those of the current
  state. What leaves the component is a message emitted on the socket, the closing of the
  socket, or the opening of a new one.
\<close>

definition effect_deps :: "race_client \<Rightarrow> bool \<times> jsstring \<times> bool" where
  "effect_deps c = (wasInLobby c, username c, hasJoined c)"

datatype wire = Emit client_msg | CloseSocket | OpenSocket

definition rerender ::
  "race_client \<Rightarrow> race_client \<times> client_msg list \<Rightarrow> race_client \<times> wire list" where
  "rerender c r =
     (case r of
        (c', msgs) \<Rightarrow>
          if effect_deps c' \<noteq> effect_deps c
          then (c'\<lparr>socket := True\<rparr>, map Emit msgs @ [CloseSocket, OpenSocket])
          else (c', map Emit msgs))"

text \<open>
  A click on the Race Again button and a call of joinLobby, each with the render that
  follows it.
\<close>

definition raceAgain_button :: "race_client \<Rightarrow> race_client \<times> wire list" where
  "raceAgain_button c = rerender c (raceAgainClick c)"

definition joinLobby_button :: "race_client \<Rightarrow> race_client \<times> wire list" where
  "joinLobby_button c = rerender c (joinLobby c)"

text \<open>
  The TypingInterface is rendered when no results are shown, the lobby status is racing
  and the race text is a non-empty string; its \<open>isActive\<close> is \<open>!myRank && isConnected\<close>.
\<close>

definition typing_mounted :: "race_client \<Rightarrow> bool" where
  "typing_mounted c \<longleftrightarrow>
     raceResults c = None \<and> status (lobbyState c) = Racing \<and> raceText c \<noteq> []"

definition typing_active :: "race_client \<Rightarrow> bool" where
  "typing_active c \<longleftrightarrow> \<not> truthy_opt (myRank c) \<and> isConnected c"

text \<open>
  One firing of the interval of the mounted TypingInterface: the only call of
  handleProgressUpdate.
\<close>

definition progress_tick :: "race_client \<Rightarrow> typing_state \<Rightarrow> race_client \<times> client_msg list" where
  "progress_tick c ts =
     (if typing_mounted c then
        (case interval_progress (raceText c) (typing_active c) ts of
           None \<Rightarrow> (c, [])
         | Some p \<Rightarrow> handleProgressUpdate p c)
      else (c, []))"

text \<open>
  What the component renders: the results once \<open>raceResults\<close> is set, otherwise the race
  track while the lobby status is racing, otherwise the lobby.
\<close>

datatype view = LobbyView | RaceTrackView | ResultsView

definition current_view :: "race_client \<Rightarrow> view" where
  "current_view c =
     (if raceResults c \<noteq> None then ResultsView
      else if status (lobbyState c) = Racing then RaceTrackView
      else LobbyView)"

text \<open>
  The error text on the screen. Of the three render functions only \<open>renderLobby\<close> has a
  block for it, \<open>connectionError && !isReconnecting\<close>, which shows the connection error
  if it is a non-empty string and the client is not reconnecting; \<open>renderRaceTrack\<close> and
  \<open>renderResults\<close> read \<open>connectionError\<close> nowhere.
\<close>

definition displayed_error :: "race_client \<Rightarrow> jsstring option" where
  "displayed_error c =
     (case current_view c of
        LobbyView \<Rightarrow>
          (case connectionError c of
             None \<Rightarrow> None
           | Some e \<Rightarrow> if e \<noteq> [] \<and> \<not> isReconnecting c then Some e else None)
      | RaceTrackView \<Rightarrow> None
      | ResultsView \<Rightarrow> None)"

text \<open>
  The form with the username field and the Join Race button, whose click calls joinLobby:
  \<open>renderLobby\<close> has it while the lobby status is waiting and \<open>hasJoined\<close> is not set.
\<close>

definition join_form_shown :: "race_client \<Rightarrow> bool" where
  "join_form_shown c \<longleftrightarrow>
     current_view c = LobbyView \<and> status (lobbyState c) = Waiting \<and> \<not> hasJoined c"

section \<open>The race coordinator\<close>

text \<open>
  The coordinator (session registry, race session, rank assignment, timeout) is the
  server that the client talks to over its socket. The definitions of this section are
  modelled from the specification, sections 3 to 7, and follow its wording. A session
  processes its messages one at a time in arrival order (section 5), so an interleaving
  of concurrent messages is a list of messages.
\<close>

datatype conn_state = Connected | DisconnectedGrace | Left

text \<open>
  Modelled from the spec: the Participant and Race Session records of section 3, which
  the server holds. \<open>finalStats\<close> is the triple wordsPerMinute, accuracy, elapsedSeconds;
  a participant id is a number.
\<close>

type_synonym final_stats = "rat \<times> rat \<times> rat"

record participant =
  pid :: nat
  displayName :: jsstring
  connectionState :: conn_state
  progress :: rat
  finished :: bool
  rank :: "nat option"
  finalStats :: "final_stats option"

text \<open>
  Modelled from the spec: the session of section 3: its status, the roster in join order,
  the passage of the current race, and the next unused participant id. Deadlines and the
  countdown are timers; their expiry reaches the session as a message.
\<close>

record session =
  sess_status :: status
  roster :: "participant list"
  passageText :: "jsstring option"
  nextId :: nat

text \<open>
  Modelled from the spec: the error kinds of section 7 and, of the events of section 6,
  those that are fanned out to the roster in a race.
\<close>

datatype coord_error = LobbyFull | NameTaken | InvalidPayload | StaleOperation | SessionNotFound

datatype coord_event =
    OpponentProgress nat rat
  | ParticipantFinished nat nat final_stats
  | RaceTimeoutEv jsstring "jsstring list"

text \<open>
  Modelled from the spec: a session is created empty and Waiting, and a new participant
  is connected, with no progress, not finished and without rank or stats (sections 3
  and 4.2).
\<close>

definition empty_session :: session where
  "empty_session = \<lparr> sess_status = Waiting, roster = [], passageText = None, nextId = 0 \<rparr>"

definition new_participant :: "nat \<Rightarrow> jsstring \<Rightarrow> participant" where
  "new_participant i name =
     \<lparr> pid = i, displayName = name, connectionState = Connected, progress = 0,
       finished = False, rank = None, finalStats = None \<rparr>"

text \<open>
  Modelled from the spec: the registry's \<open>join\<close> (section 4.1), which is server code.
  A reconnect token names a participant id. If the token matches a participant in
  disconnected-grace, that participant is restored; otherwise a new participant is
  created if the roster size is below 6 and the display name is not in the roster;
  otherwise the join fails with LobbyFull or NameTaken.
\<close>

definition reconnects :: "nat option \<Rightarrow> session \<Rightarrow> bool" where
  "reconnects token s =
     (case token of
        None \<Rightarrow> False
      | Some t \<Rightarrow> \<exists>p \<in> set (roster s). pid p = t \<and> connectionState p = DisconnectedGrace)"

definition join_session :: "jsstring \<Rightarrow> nat option \<Rightarrow> session \<Rightarrow> coord_error + session" where
  "join_session name token s =
     (if reconnects token s
      then Inr (s\<lparr>roster := map (\<lambda>p. if Some (pid p) = token
                                         \<and> connectionState p = DisconnectedGrace
                                      then p\<lparr>connectionState := Connected\<rparr> else p)
                                (roster s)\<rparr>)
      else if length (roster s) \<ge> 6 then Inl LobbyFull
      else if name \<in> set (map displayName (roster s)) then Inl NameTaken
      else Inr (s\<lparr>roster := roster s @ [new_participant (nextId s) name],
                  nextId := Suc (nextId s)\<rparr>))"


text \<open>
  Modelled from the spec: \<open>leave\<close> (section 4.1), which is server code. It removes the
  participant only from Waiting; in any other status it marks the participant left and
  keeps its slot.
\<close>

definition leave_session :: "nat \<Rightarrow> session \<Rightarrow> session" where
  "leave_session i s =
     (if sess_status s = Waiting
      then s\<lparr>roster := filter (\<lambda>p. pid p \<noteq> i) (roster s)\<rparr>
      else s\<lparr>roster := map (\<lambda>p. if pid p = i then p\<lparr>connectionState := Left\<rparr> else p)
                            (roster s)\<rparr>)"

text \<open>
  Modelled from the spec: a transport-level disconnect and the end of the grace window
  (section 4.3), which are server code.
\<close>

definition disconnect :: "nat \<Rightarrow> session \<Rightarrow> session" where
  "disconnect i s =
     s\<lparr>roster := map (\<lambda>p. if pid p = i \<and> connectionState p = Connected
                           then p\<lparr>connectionState := DisconnectedGrace\<rparr> else p)
                     (roster s)\<rparr>"

definition grace_expired :: "nat \<Rightarrow> session \<Rightarrow> session" where
  "grace_expired i s =
     s\<lparr>roster := map (\<lambda>p. if pid p = i \<and> connectionState p = DisconnectedGrace
                           then p\<lparr>connectionState := Left\<rparr> else p)
                     (roster s)\<rparr>"

text \<open>
  Modelled from the spec: the operations on the roster (sections 4.1 and 4.3), processed
  one at a time; a failed join leaves the session as it was. \<open>Phase\<close> stands for any
  transition of the state machine of section 4.2, whatever triggers it: it changes the
  status only.
\<close>

datatype lobby_op =
    Join jsstring "nat option"
  | Leave nat
  | Disconnect nat
  | GraceExpired nat
  | Phase status

fun lobby_step :: "session \<Rightarrow> lobby_op \<Rightarrow> session" where
  "lobby_step s (Join name token) =
     (case join_session name token s of Inl e \<Rightarrow> s | Inr s' \<Rightarrow> s')"
| "lobby_step s (Leave i) = leave_session i s"
| "lobby_step s (Disconnect i) = disconnect i s"
| "lobby_step s (GraceExpired i) = grace_expired i s"
| "lobby_step s (Phase st) = s\<lparr>sess_status := st\<rparr>"

text \<open>
  Modelled from the spec: a progress update during Racing (section 4.2), which is server
  code. An update changes the stored progress only if the new value is at least the
  stored one; a stale value is dropped silently; an accepted update is fanned out. Values
  outside [0, 100] are rejected as InvalidPayload, a message for a participant that is
  unknown, finished or left as StaleOperation (sections 6 and 7).
\<close>

definition progressUpdate ::
  "nat \<Rightarrow> rat \<Rightarrow> session \<Rightarrow> coord_error + session \<times> coord_event list" where
  "progressUpdate i v s =
     (if v < 0 \<or> 100 < v then Inl InvalidPayload
      else case find (\<lambda>p. pid p = i) (roster s) of
        None \<Rightarrow> Inl StaleOperation
      | Some p \<Rightarrow>
          if sess_status s \<noteq> Racing \<or> finished p \<or> connectionState p = Left
          then Inl StaleOperation
          else if v < progress p then Inr (s, [])
          else Inr (s\<lparr>roster := map (\<lambda>q. if pid q = i then q\<lparr>progress := v\<rparr> else q)
                                     (roster s)\<rparr>,
                    [OpponentProgress i v]))"

text \<open>
  Modelled from the spec: the next integer rank (section 4.2), one more than the number
  of ranks already granted, and the ranges of the numeric fields of a completion
  (section 6).
\<close>

definition next_rank :: "session \<Rightarrow> nat" where
  "next_rank s = Suc (length (filter (\<lambda>p. rank p \<noteq> None) (roster s)))"

definition valid_stats :: "final_stats \<Rightarrow> bool" where
  "valid_stats st = (case st of (w, a, e) \<Rightarrow> 0 \<le> w \<and> 0 \<le> a \<and> a \<le> 100 \<and> 0 \<le> e)"

text \<open>
  Modelled from the spec: the transition from Racing to Finished (section 4.2), which is
  server code. It is triggered when every participant that has not left has finished.
\<close>

definition check_all_finished :: "session \<Rightarrow> session" where
  "check_all_finished s =
     (if sess_status s = Racing
         \<and> list_all (\<lambda>q. connectionState q = Left \<or> finished q) (roster s)
      then s\<lparr>sess_status := Finished\<rparr> else s)"

text \<open>
  Modelled from the spec: a completion message during Racing (section 4.2), which is
  server code. A completion from a participant that has not yet finished is accepted at
  most once and is given the next integer rank. Stats out of range are rejected as
  InvalidPayload, a message for a participant that is unknown, finished or left as
  StaleOperation (sections 6 and 7).
\<close>

definition raceFinished ::
  "nat \<Rightarrow> final_stats \<Rightarrow> session \<Rightarrow> coord_error + session \<times> coord_event list" where
  "raceFinished i st s =
     (if \<not> valid_stats st then Inl InvalidPayload
      else case find (\<lambda>p. pid p = i) (roster s) of
        None \<Rightarrow> Inl StaleOperation
      | Some p \<Rightarrow>
          if sess_status s \<noteq> Racing \<or> finished p \<or> connectionState p = Left
          then Inl StaleOperation
          else
            let r = next_rank s;
                ps = map (\<lambda>q. if pid q = i
                               then q\<lparr>finished := True, rank := Some r, finalStats := Some st\<rparr>
                               else q) (roster s)
            in Inr (check_all_finished (s\<lparr>roster := ps\<rparr>), [ParticipantFinished i r st]))"

text \<open>
  Modelled from the spec: the messages of one race and a run of them in arrival order
  (section 5). A rejected message leaves the session as it was and fans nothing out; a
  leave can complete the race, since the participant no longer counts.
\<close>

datatype race_msg =
    ProgressMsg nat rat
  | FinishedMsg nat final_stats
  | LeaveMsg nat
  | DisconnectMsg nat
  | ReconnectMsg jsstring nat

fun race_step :: "session \<Rightarrow> race_msg \<Rightarrow> session \<times> coord_event list" where
  "race_step s (ProgressMsg i v) =
     (case progressUpdate i v s of Inl e \<Rightarrow> (s, []) | Inr r \<Rightarrow> r)"
| "race_step s (FinishedMsg i st) =
     (case raceFinished i st s of Inl e \<Rightarrow> (s, []) | Inr r \<Rightarrow> r)"
| "race_step s (LeaveMsg i) = (check_all_finished (leave_session i s), [])"
| "race_step s (DisconnectMsg i) = (disconnect i s, [])"
| "race_step s (ReconnectMsg name t) =
     (case join_session name (Some t) s of Inl e \<Rightarrow> (s, []) | Inr s' \<Rightarrow> (s', []))"

fun run_race :: "race_msg list \<Rightarrow> session \<Rightarrow> session \<times> coord_event list" where
  "run_race [] s = (s, [])"
| "run_race (m # ms) s =
     (case race_step s m of
        (s', ev) \<Rightarrow> (case run_race ms s' of (s'', evs) \<Rightarrow> (s'', ev @ evs)))"

text \<open>The accepted completions of a run, in order: participant and rank.\<close>

fun finish_log :: "coord_event list \<Rightarrow> (nat \<times> nat) list" where
  "finish_log [] = []"
| "finish_log (ParticipantFinished i r st # es) = (i, r) # finish_log es"
| "finish_log (e # es) = finish_log es"

text \<open>The progress values of one participant that a run fans out, in order.\<close>

fun progress_log :: "nat \<Rightarrow> coord_event list \<Rightarrow> rat list" where
  "progress_log i [] = []"
| "progress_log i (OpponentProgress j v # es) =
     (if j = i then v # progress_log i es else progress_log i es)"
| "progress_log i (e # es) = progress_log i es"

text \<open>
  Modelled from the spec: the opponentProgress messages that the events of a run become
  for a client. The coordinator fans an accepted progress update out as
  \<open>opponentProgress{participantId, progress}\<close> (section 6); the client reads \<open>userId\<close> and
  \<open>progress\<close>. \<open>uid\<close> gives the id under which the clients know a participant.
\<close>

fun relay :: "(nat \<Rightarrow> jsstring) \<Rightarrow> coord_event list \<Rightarrow> (jsstring \<times> jsnum) list" where
  "relay uid [] = []"
| "relay uid (OpponentProgress j v # es) = (uid j, Fin v) # relay uid es"
| "relay uid (e # es) = relay uid es"

text \<open>The ranks held in a roster and in a session: participant and rank, in roster order.\<close>

definition ranked_pairs :: "participant list \<Rightarrow> (nat \<times> nat) list" where
  "ranked_pairs ps =
     concat (map (\<lambda>p. case rank p of None \<Rightarrow> [] | Some r \<Rightarrow> [(pid p, r)]) ps)"

definition assigned :: "session \<Rightarrow> (nat \<times> nat) list" where
  "assigned s = ranked_pairs (roster s)"

text \<open>
  What every session built by lobby operations satisfies: participant ids are distinct
  and below the next unused id, and nobody has finished or holds a rank.
\<close>

definition lobby_inv :: "session \<Rightarrow> bool" where
  "lobby_inv s \<longleftrightarrow>
     distinct (map pid (roster s)) \<and> (\<forall>p \<in> set (roster s). pid p < nextId s)
     \<and> (\<forall>p \<in> set (roster s). rank p = None \<and> \<not> finished p)"

text \<open>
  What holds throughout a race: participant ids are distinct and below the next unused
  id, the session is not Waiting, and whoever holds a rank has finished.
\<close>

definition race_inv :: "session \<Rightarrow> bool" where
  "race_inv s \<longleftrightarrow>
     distinct (map pid (roster s)) \<and> (\<forall>p \<in> set (roster s). pid p < nextId s)
     \<and> sess_status s \<noteq> Waiting \<and> (\<forall>p \<in> set (roster s). rank p \<noteq> None \<longrightarrow> finished p)"

text \<open>The progress the session holds for a participant id; 0 if the id is unknown.\<close>

definition stored_progress :: "nat \<Rightarrow> session \<Rightarrow> rat" where
  "stored_progress i s =
     (case find (\<lambda>p. pid p = i) (roster s) of None \<Rightarrow> 0 | Some p \<Rightarrow> progress p)"

text \<open>
  Modelled from the spec: the hard time limit (section 4.2), which is server code. When
  the deadline is reached during Racing the session becomes Finished, every unfinished
  participant is marked finished without a rank, with the stats \<open>partial\<close> gives for its
  partial progress, and \<open>raceTimeout\<close> carries the display names of the unfinished
  participants.
\<close>

definition deadline_reached ::
  "(participant \<Rightarrow> final_stats) \<Rightarrow> jsstring \<Rightarrow> session \<Rightarrow> session \<times> coord_event list" where
  "deadline_reached partial message s =
     (if sess_status s = Racing
      then (s\<lparr>sess_status := Finished,
               roster := map (\<lambda>p. if finished p then p
                                   else p\<lparr>finished := True, rank := None,
                                          finalStats := Some (partial p)\<rparr>)
                             (roster s)\<rparr>,
            [RaceTimeoutEv message (map displayName (filter (\<lambda>p. \<not> finished p) (roster s)))])
      else (s, []))"

text \<open>
  Modelled from the spec: the "race again" request (section 4.2), which is server code.
  From Finished, a request of a participant that is still connected resets the passage,
  and the ranks and finished flags of the participants who remain, and the session is
  Waiting again.
\<close>

definition raceAgain :: "nat \<Rightarrow> session \<Rightarrow> coord_error + session" where
  "raceAgain i s =
     (if sess_status s = Finished
         \<and> (\<exists>p \<in> set (roster s). pid p = i \<and> connectionState p = Connected)
      then Inr (s\<lparr>sess_status := Waiting, passageText := None,
                  roster := map (\<lambda>p. p\<lparr>finished := False, rank := None, finalStats := None,
                                        progress := 0\<rparr>)
                                (filter (\<lambda>p. connectionState p \<noteq> Left) (roster s))\<rparr>)
      else Inl StaleOperation)"

section \<open>Example states\<close>

text \<open>A client in a race on the passage "ab", and the typing state after typing "a".\<close>

definition racing_client :: race_client where
  "racing_client =
     \<lparr> socket = True,
       lobbyState =
         \<lparr> users = [\<lparr> user_id = str ''s1'', user_name = str ''ann'', user_progress = Fin 0,
                       user_finished = None, user_rank = None, user_stats = None \<rparr>,
                    \<lparr> user_id = str ''s2'', user_name = str ''bob'', user_progress = Fin 50,
                       user_finished = None, user_rank = None, user_stats = None \<rparr>],
           countdown = Fin 0, status = Racing \<rparr>,
       raceText = str ''ab'', raceStartTime = Some (Fin 1000), raceResults = None,
       username = str '' ann '', isConnected = True, isReconnecting = False,
       connectionError = None, myRank = None, hasJoined = True, currentStandings = [],
       wasInLobby = True \<rparr>"

definition typed_a :: typing_state where
  "typed_a = \<lparr> typedText = str ''a'', currentIndex = 1, startTime = Some 1000 \<rparr>"

text \<open>
  A passage of forty characters, and a typed text of the same length of which the first
  twenty-three characters are right.
\<close>

definition passage40 :: jsstring where
  "passage40 = str ''aaaaaaaaaaaaaaaaaaaaaaaaaaaaaaaaaaaaaaaa''"

definition typed40 :: jsstring where
  "typed40 = str ''aaaaaaaaaaaaaaaaaaaaaaabbbbbbbbbbbbbbbbb''"

text \<open>
  Ids under which clients know the participants 0, 1, 2, ...: "s1", "s11", "s111", ...
\<close>

definition socket_id :: "nat \<Rightarrow> jsstring" where
  "socket_id n = str ''s'' @ replicate (Suc n) (of_nat (of_char CHR ''1''))"

text \<open>The typing state after typing the wrong character "x".\<close>

definition typed_x :: typing_state where
  "typed_x = \<lparr> typedText = str ''x'', currentIndex = 1, startTime = Some 1000 \<rparr>"

text \<open>Six joins under different names, and the session they build.\<close>

definition six_joins :: "lobby_op list" where
  "six_joins = [Join (str ''ann'') None, Join (str ''bob'') None, Join (str ''cy'') None,
                Join (str ''dee'') None, Join (str ''eve'') None, Join (str ''fay'') None]"

definition full_session :: session where
  "full_session = foldl lobby_step empty_session six_joins"

text \<open>
  A race of two: ann and bob join, the race starts; ann's completion (60 seconds) arrives
  first, then bob's (45 seconds), then ann's once more.
\<close>

definition two_racing :: "lobby_op list" where
  "two_racing = [Join (str ''ann'') None, Join (str ''bob'') None, Phase Racing]"

definition three_completions :: "race_msg list" where
  "three_completions =
     [FinishedMsg 0 (60, 92, 60), ProgressMsg 1 90, FinishedMsg 1 (80, 97, 45),
      FinishedMsg 0 (60, 92, 60)]"


text \<open>A client whose race has finished and that shows the results.\<close>

definition finished_client :: race_client where
  "finished_client =
     racing_client
       \<lparr> lobbyState := (lobbyState racing_client)\<lparr>status := Finished\<rparr>,
         raceResults := Some ([(Fin 1, str ''ann'', Fin 80, Fin 97, Fin 45),
                               (Fin 2, str ''bob'', Fin 60, Fin 92, Fin 60)], True),
         myRank := Some (Fin 1) \<rparr>"

text \<open>Progress updates of participant 0: 30, then a stale 10, then 40.\<close>

definition three_updates :: "race_msg list" where
  "three_updates = [ProgressMsg 0 30, ProgressMsg 0 10, ProgressMsg 0 40]"

text \<open>The session of the race of two after ann has finished and bob has left.\<close>

definition finished_session :: session where
  "finished_session =
     fst (run_race [FinishedMsg 0 (60, 92, 60), LeaveMsg 1]
            (foldl lobby_step empty_session two_racing))"

section \<open>Properties of the double arithmetic\<close>

lemma rne_of_int [simp]: "rne (of_int n) = n"
  by (simp add: rne_def)

lemma rne_bounds: "\<lfloor>x\<rfloor> \<le> rne x \<and> rne x \<le> \<lfloor>x\<rfloor> + 1"
  by (simp add: rne_def Let_def)

lemma rne_mono: "x \<le> y \<Longrightarrow> rne x \<le> rne y"
proof -
  assume xy: "x \<le> y"
  have fm: "\<lfloor>x\<rfloor> \<le> \<lfloor>y\<rfloor>" using xy by (rule floor_mono)
  show ?thesis
  proof (cases "\<lfloor>x\<rfloor> = \<lfloor>y\<rfloor>")
    case True
    then have "x - of_int \<lfloor>x\<rfloor> \<le> y - of_int \<lfloor>y\<rfloor>" using xy by simp
    then show ?thesis using True by (auto simp add: rne_def Let_def)
  next
    case False
    then have lt: "\<lfloor>x\<rfloor> + 1 \<le> \<lfloor>y\<rfloor>" using fm by simp
    show ?thesis
    proof (cases "\<lfloor>x\<rfloor> + 1 = \<lfloor>y\<rfloor>")
      case False
      then show ?thesis using lt rne_bounds [of x] rne_bounds [of y] by linarith
    next
      case True
      show ?thesis using rne_bounds [of x] rne_bounds [of y] True by linarith
    qed
  qed
qed

lemma rne_error: "\<bar>of_int (rne x) - x\<bar> \<le> 1 / 2"
proof -
  have "of_int \<lfloor>x\<rfloor> \<le> x" "x < of_int \<lfloor>x\<rfloor> + 1" by linarith+
  then show ?thesis by (auto simp add: rne_def Let_def)
qed

lemma rne_eqI: "\<bar>x - of_int n\<bar> < 1 / 2 \<Longrightarrow> rne x = n"
proof -
  assume a: "\<bar>x - of_int n\<bar> < 1 / 2"
  have "\<bar>of_int (rne x) - x\<bar> \<le> 1 / 2" by (rule rne_error)
  with a have "\<bar>(of_int (rne x) :: rat) - of_int n\<bar> < 1" by linarith
  then have "\<bar>rne x - n\<bar> < 1" by (metis of_int_1 of_int_abs of_int_diff of_int_less_iff)
  then show ?thesis by simp
qed

lemma expo_bounds:
  assumes "0 < x"
  shows "2 powi expo x \<le> x \<and> x < 2 powi (expo x + 1)"
proof (cases "1 \<le> x")
  case True
  then have fp: "0 < \<lfloor>x\<rfloor>" by linarith
  have b: "2 ^ nat (bitlen \<lfloor>x\<rfloor> - 1) \<le> \<lfloor>x\<rfloor>" "\<lfloor>x\<rfloor> < 2 ^ nat (bitlen \<lfloor>x\<rfloor>)"
    using bitlen_bounds [OF fp] by auto
  have ge1: "1 \<le> bitlen \<lfloor>x\<rfloor>" using fp by (auto simp add: bitlen_alt_def)
  have e: "expo x = bitlen \<lfloor>x\<rfloor> - 1" using True by (simp add: expo_def)
  have "(2::rat) powi expo x = of_int (2 ^ nat (bitlen \<lfloor>x\<rfloor> - 1))"
    using ge1 by (simp add: e power_int_def)
  also have "\<dots> \<le> of_int \<lfloor>x\<rfloor>" using b(1) by (simp only: of_int_le_iff)
  also have "\<dots> \<le> x" by simp
  finally have lo: "2 powi expo x \<le> x" .
  have "\<lfloor>x\<rfloor> + 1 \<le> 2 ^ nat (bitlen \<lfloor>x\<rfloor>)" using b(2) by simp
  then have "(of_int (\<lfloor>x\<rfloor> + 1) :: rat) \<le> of_int (2 ^ nat (bitlen \<lfloor>x\<rfloor>))"
    by (simp only: of_int_le_iff)
  moreover have "x < of_int (\<lfloor>x\<rfloor> + 1)" by simp linarith
  moreover have "(2::rat) powi (expo x + 1) = of_int (2 ^ nat (bitlen \<lfloor>x\<rfloor>))"
    using ge1 by (simp add: e power_int_def)
  ultimately have "x < 2 powi (expo x + 1)" by linarith
  with lo show ?thesis by simp
next
  case False
  then have x1: "x < 1" by simp
  define y where "y = 1 / x"
  have y1: "1 < y" using assms x1 by (simp add: y_def)
  define k where "k = \<lceil>y\<rceil> - 1"
  have kp: "0 < k" using y1 unfolding k_def by linarith
  have b: "2 ^ nat (bitlen k - 1) \<le> k" "k < 2 ^ nat (bitlen k)"
    using bitlen_bounds [OF kp] by auto
  have ge1: "1 \<le> bitlen k" using kp by (auto simp add: bitlen_alt_def)
  have e: "expo x = - bitlen k" using False by (simp add: expo_def k_def y_def)
  have "\<lceil>y\<rceil> \<le> 2 ^ nat (bitlen k)" using b(2) by (simp add: k_def)
  then have c: "(of_int \<lceil>y\<rceil> :: rat) \<le> of_int (2 ^ nat (bitlen k))" by (simp only: of_int_le_iff)
  have "y \<le> of_int \<lceil>y\<rceil>" by simp
  also note c
  also have "(of_int (2 ^ nat (bitlen k)) :: rat) = 2 ^ nat (bitlen k)" by simp
  finally have yle: "y \<le> 2 ^ nat (bitlen k)" .
  have d: "(of_int (2 ^ nat (bitlen k - 1)) :: rat) \<le> of_int k"
    using b(1) by (simp only: of_int_le_iff)
  have "(2::rat) ^ nat (bitlen k - 1) = of_int (2 ^ nat (bitlen k - 1))" by simp
  also note d
  also have "of_int k < y" unfolding k_def by simp linarith
  finally have ygt: "2 ^ nat (bitlen k - 1) < y" .
  have p1: "(2::rat) powi expo x = 1 / 2 ^ nat (bitlen k)"
    using ge1 by (simp add: e power_int_def field_simps)
  have p2: "(2::rat) powi (expo x + 1) = 1 / 2 ^ nat (bitlen k - 1)"
  proof -
    have "expo x + 1 = - (bitlen k - 1)" by (simp add: e)
    then show ?thesis
      using ge1 by (simp only: power_int_minus_divide) (simp add: power_int_nonneg_exp)
  qed
  have "1 / 2 ^ nat (bitlen k) \<le> x"
    using yle assms by (simp add: y_def field_simps)
  moreover have "x < 1 / 2 ^ nat (bitlen k - 1)"
    using ygt assms by (simp add: y_def field_simps)
  ultimately show ?thesis by (simp add: p1 p2)
qed

lemma expo_unique:
  assumes "0 < x" "2 powi e \<le> x" "x < 2 powi (e + 1)"
  shows "expo x = e"
proof -
  have b: "2 powi expo x \<le> x" "x < 2 powi (expo x + 1)" using expo_bounds [OF assms(1)] by auto
  have "(2::rat) powi e < 2 powi (expo x + 1)" using assms(2) b(2) by linarith
  then have 1: "e < expo x + 1"
    using power_int_increasing [of "expo x + 1" e "2::rat"] by (cases "e < expo x + 1") auto
  have "(2::rat) powi expo x < 2 powi (e + 1)" using assms(3) b(1) by linarith
  then have 2: "expo x < e + 1"
    using power_int_increasing [of "e + 1" "expo x" "2::rat"] by (cases "expo x < e + 1") auto
  from 1 2 show ?thesis by simp
qed


lemma expo_mono:
  assumes "0 < x" "x \<le> y"
  shows "expo x \<le> expo y"
proof -
  have "2 powi expo x \<le> x" using expo_bounds [OF assms(1)] by simp
  also note assms(2)
  also have "y < 2 powi (expo y + 1)" using expo_bounds [of y] assms by simp
  finally have "(2::rat) powi expo x < 2 powi (expo y + 1)" .
  then have "expo x < expo y + 1"
    using power_int_increasing [of "expo y + 1" "expo x" "2::rat"]
    by (cases "expo x < expo y + 1") auto
  then show ?thesis by simp
qed

lemma fl_0 [simp]: "fl 0 = 0"
  by (simp add: fl_def)

lemma fl_minus: "fl (- x) = - fl x"
  by (simp add: fl_def Let_def)

lemma fl_pos_eq:
  "0 < x \<Longrightarrow> fl x = of_int (rne (x / 2 powi (expo x - 52))) * 2 powi (expo x - 52)"
  by (simp add: fl_def Let_def)

lemma powi_split: "(2::rat) powi e = 2 ^ 52 * 2 powi (e - 52)"
proof -
  have "(2::rat) powi e = 2 powi (52 + (e - 52))" by simp
  also have "\<dots> = 2 powi 52 * 2 powi (e - 52)" by (rule power_int_add) simp
  finally show ?thesis by simp
qed

lemma powi_Suc: "(2::rat) powi (e + 1) = 2 * 2 powi e"
  using power_int_add [of "2::rat" e 1] by simp

lemma mantissa_bounds:
  fixes x :: rat
  assumes "0 < x" "2 powi e \<le> x" "x < 2 powi (e + 1)"
  shows "2 ^ 52 \<le> x / 2 powi (e - 52) \<and> x / 2 powi (e - 52) < 2 ^ 53"
proof -
  have u: "0 < (2::rat) powi (e - 52)" by simp
  have 1: "2 ^ 52 * 2 powi (e - 52) \<le> x" using assms(2) by (simp only: powi_split [symmetric])
  have "x < 2 * (2 ^ 52 * 2 powi (e - 52))"
    using assms(3) by (simp only: powi_split [symmetric] powi_Suc)
  then have 2: "x < 2 ^ 53 * 2 powi (e - 52)" by simp
  from 1 2 u show ?thesis by (simp add: pos_le_divide_eq pos_divide_less_eq)
qed

lemma rne_mantissa:
  assumes "2 ^ 52 \<le> m" "m < 2 ^ 53"
  shows "2 ^ 52 \<le> rne m \<and> rne m \<le> 2 ^ 53"
proof -
  have "rne (of_int (2 ^ 52)) \<le> rne m" by (rule rne_mono) (use assms in simp)
  moreover have "rne m \<le> rne (of_int (2 ^ 53))" by (rule rne_mono) (use assms in simp)
  ultimately show ?thesis by (simp only: rne_of_int)
qed

lemma fl_bounds:
  assumes "0 < x"
  shows "2 powi expo x \<le> fl x \<and> fl x \<le> 2 powi (expo x + 1)"
proof -
  let ?e = "expo x"
  let ?u = "(2::rat) powi (?e - 52)"
  let ?n = "rne (x / ?u)"
  have b: "2 powi ?e \<le> x" "x < 2 powi (?e + 1)" using expo_bounds [OF assms] by auto
  have m: "2 ^ 52 \<le> x / ?u" "x / ?u < 2 ^ 53" using mantissa_bounds [OF assms b] by auto
  have n: "2 ^ 52 \<le> ?n" "?n \<le> 2 ^ 53" using rne_mantissa [OF m] by auto
  have n1: "(2::rat) ^ 52 \<le> of_int ?n"
  proof -
    have "(of_int (2 ^ 52) :: rat) \<le> of_int ?n" using n(1) by (simp only: of_int_le_iff)
    then show ?thesis by simp
  qed
  have n2: "(of_int ?n :: rat) \<le> 2 ^ 53"
  proof -
    have "(of_int ?n :: rat) \<le> of_int (2 ^ 53)" using n(2) by (simp only: of_int_le_iff)
    then show ?thesis by simp
  qed
  have u: "0 < ?u" by simp
  have f: "fl x = of_int ?n * ?u" using assms by (rule fl_pos_eq)
  have "2 powi ?e = 2 ^ 52 * ?u" by (rule powi_split)
  also have "\<dots> \<le> of_int ?n * ?u" using n1 u by (simp only: mult_le_cancel_right_pos)
  finally have lo: "2 powi ?e \<le> fl x" by (simp only: f)
  have "of_int ?n * ?u \<le> 2 ^ 53 * ?u" using n2 u by (simp only: mult_le_cancel_right_pos)
  also have "\<dots> = 2 * (2 ^ 52 * ?u)" by simp
  also have "\<dots> = 2 powi (?e + 1)" by (simp only: powi_split [symmetric] powi_Suc)
  finally have hi: "fl x \<le> 2 powi (?e + 1)" by (simp only: f)
  from lo hi show ?thesis by simp
qed

lemma fl_pos: "0 < x \<Longrightarrow> 0 < fl x"
proof -
  assume x: "0 < x"
  have "(0::rat) < 2 powi expo x" by simp
  also have "\<dots> \<le> fl x" using fl_bounds [OF x] by simp
  finally show ?thesis .
qed

lemma fl_nonneg: "0 \<le> x \<Longrightarrow> 0 \<le> fl x"
  using fl_pos [of x] by (cases "x = 0") auto

lemma fl_mono_pos:
  assumes "0 < x" "x \<le> y"
  shows "fl x \<le> fl y"
proof -
  have y: "0 < y" using assms by simp
  have e: "expo x \<le> expo y" using assms by (rule expo_mono)
  show ?thesis
  proof (cases "expo x = expo y")
    case True
    let ?u = "(2::rat) powi (expo y - 52)"
    have u: "0 < ?u" by simp
    have "x / ?u \<le> y / ?u" using assms(2) by (rule divide_right_mono) simp
    then have "rne (x / ?u) \<le> rne (y / ?u)" by (rule rne_mono)
    then have "(of_int (rne (x / ?u)) :: rat) \<le> of_int (rne (y / ?u))"
      by (simp only: of_int_le_iff)
    then have "of_int (rne (x / ?u)) * ?u \<le> of_int (rne (y / ?u)) * ?u"
      using u by (simp only: mult_le_cancel_right_pos)
    then show ?thesis using fl_pos_eq [OF assms(1)] fl_pos_eq [OF y] True by simp
  next
    case False
    then have lt: "expo x + 1 \<le> expo y" using e by simp
    have "fl x \<le> 2 powi (expo x + 1)" using fl_bounds [OF assms(1)] by simp
    also have "\<dots> \<le> 2 powi expo y" using lt by (rule power_int_increasing) simp
    also have "\<dots> \<le> fl y" using fl_bounds [OF y] by simp
    finally show ?thesis .
  qed
qed

lemma fl_mono: "0 \<le> x \<Longrightarrow> x \<le> y \<Longrightarrow> fl x \<le> fl y"
  using fl_mono_pos [of x y] fl_nonneg [of y] by (cases "x = 0") auto

lemma fl_error:
  assumes "0 < x"
  shows "\<bar>fl x - x\<bar> \<le> x / 2 ^ 53"
proof -
  let ?e = "expo x"
  let ?u = "(2::rat) powi (?e - 52)"
  have u: "0 < ?u" by simp
  have "\<bar>of_int (rne (x / ?u)) - x / ?u\<bar> \<le> 1 / 2" by (rule rne_error)
  then have "\<bar>of_int (rne (x / ?u)) - x / ?u\<bar> * ?u \<le> 1 / 2 * ?u"
    using u by (simp only: mult_le_cancel_right_pos)
  moreover have "\<bar>of_int (rne (x / ?u)) - x / ?u\<bar> * ?u = \<bar>fl x - x\<bar>"
  proof -
    have "\<bar>of_int (rne (x / ?u)) - x / ?u\<bar> * ?u = \<bar>(of_int (rne (x / ?u)) - x / ?u) * ?u\<bar>"
      using u by (simp add: abs_mult)
    also have "(of_int (rne (x / ?u)) - x / ?u) * ?u = fl x - x"
      using u by (simp add: fl_pos_eq [OF assms] algebra_simps)
    finally show ?thesis .
  qed
  ultimately have 1: "\<bar>fl x - x\<bar> \<le> ?u / 2" by simp
  have "2 ^ 52 * ?u \<le> x" using expo_bounds [OF assms] powi_split [of ?e] by simp
  then have "?u / 2 \<le> x / 2 ^ 53" by (simp add: field_simps)
  with 1 show ?thesis by linarith
qed

lemma fl_eqI:
  assumes "0 < x" "2 powi e \<le> x" "x < 2 powi (e + 1)"
    and "\<bar>x / 2 powi (e - 52) - of_int n\<bar> < 1 / 2"
  shows "fl x = of_int n * 2 powi (e - 52)"
proof -
  have e: "expo x = e" using assms(1-3) by (rule expo_unique)
  have "rne (x / 2 powi (e - 52)) = n" using assms(4) by (rule rne_eqI)
  then show ?thesis using fl_pos_eq [OF assms(1)] e by simp
qed

lemma fl_exact:
  assumes "0 < x" "2 powi e \<le> x" "x < 2 powi (e + 1)"
    and "x / 2 powi (e - 52) = of_int n"
  shows "fl x = x"
proof -
  have "fl x = of_int n * 2 powi (e - 52)"
    using assms(1-3) by (rule fl_eqI) (simp add: assms(4))
  also have "\<dots> = x" using assms(4) by (simp add: field_simps)
  finally show ?thesis .
qed

lemma fl_1: "fl 1 = 1"
  by (rule fl_exact [where e = 0 and n = "2 ^ 52"]) simp_all

lemma fl_100: "fl 100 = 100"
  by (rule fl_exact [where e = 6 and n = "25 * 2 ^ 48"]) simp_all

lemma fl_percent_range:
  assumes "0 \<le> q" "q \<le> 1"
  shows "0 \<le> fl (fl q * 100) \<and> fl (fl q * 100) \<le> 100"
proof -
  have a: "0 \<le> fl q" using assms(1) by (rule fl_nonneg)
  have "fl q \<le> fl 1" using assms by (rule fl_mono)
  then have b: "fl q \<le> 1" by (simp only: fl_1)
  have lo: "0 \<le> fl q * 100" using a by simp
  have hi: "fl q * 100 \<le> 100" using b by simp
  have "fl (fl q * 100) \<le> fl 100" using lo hi by (rule fl_mono)
  then have "fl (fl q * 100) \<le> 100" by (simp only: fl_100)
  moreover have "0 \<le> fl (fl q * 100)" using lo by (rule fl_nonneg)
  ultimately show ?thesis by simp
qed

lemma fl_error_le:
  assumes "0 \<le> x" "x \<le> b"
  shows "\<bar>fl x - x\<bar> \<le> b / 2 ^ 53"
proof (cases "x = 0")
  case True
  then show ?thesis using assms by simp
next
  case False
  then have "0 < x" using assms by simp
  then have "\<bar>fl x - x\<bar> \<le> x / 2 ^ 53" by (rule fl_error)
  also have "\<dots> \<le> b / 2 ^ 53" using assms(2) by (rule divide_right_mono) simp
  finally show ?thesis .
qed

lemma fl_percent_error:
  assumes "0 \<le> q" "q \<le> 1"
  shows "\<bar>fl (fl q * 100) - q * 100\<bar> \<le> 200 / 2 ^ 53"
proof -
  define d :: rat where "d = 1 / 2 ^ 53"
  have a: "0 \<le> fl q" using assms(1) by (rule fl_nonneg)
  have "fl q \<le> fl 1" using assms by (rule fl_mono)
  then have b: "fl q \<le> 1" by (simp only: fl_1)
  have "\<bar>fl q - q\<bar> \<le> 1 / 2 ^ 53" using assms by (rule fl_error_le)
  then have e1: "\<bar>fl q - q\<bar> \<le> d" by (simp only: d_def)
  have lo: "0 \<le> fl q * 100" using a by simp
  have hi: "fl q * 100 \<le> 100" using b by simp
  have "\<bar>fl (fl q * 100) - fl q * 100\<bar> \<le> 100 / 2 ^ 53" using lo hi by (rule fl_error_le)
  also have "(100::rat) / 2 ^ 53 = 100 * d" by (simp only: d_def times_divide_eq_right mult_1_right)
  finally have e2: "\<bar>fl (fl q * 100) - fl q * 100\<bar> \<le> 100 * d" .
  have e3: "\<bar>fl q * 100 - q * 100\<bar> \<le> 100 * d" using e1 by linarith
  have "\<bar>fl (fl q * 100) - q * 100\<bar> \<le> 200 * d" using e2 e3 by linarith
  also have "200 * d = 200 / 2 ^ 53" by (simp only: d_def times_divide_eq_right mult_1_right)
  finally show ?thesis .
qed

lemma round_close:
  fixes a b :: rat
  assumes "\<bar>a - b\<bar> \<le> 1"
  shows "\<bar>round a - round b\<bar> \<le> 1"
proof -
  have "a \<le> b + 1" "b \<le> a + 1" using assms by linarith+
  then have "round a \<le> round (b + 1)" "round b \<le> round (a + 1)" by (auto intro: round_mono)
  moreover have "round (x + 1) = round x + 1" for x :: rat
  proof -
    have "x + 1 + 1 / 2 = (x + 1 / 2) + of_int 1" by simp
    then have "\<lfloor>x + 1 + 1 / 2\<rfloor> = \<lfloor>x + 1 / 2\<rfloor> + 1" by (simp only: floor_add_int)
    then show ?thesis by (simp only: round_def)
  qed
  ultimately show ?thesis by simp
qed

lemma fl_percent_round:
  fixes c t :: int
  assumes "0 \<le> c" "c \<le> t" "0 < t"
  shows "0 \<le> round (fl (fl (of_int c / of_int t) * 100))"
    and "round (fl (fl (of_int c / of_int t) * 100)) \<le> 100"
    and "\<bar>round (fl (fl (of_int c / of_int t) * 100)) - round ((of_int c :: rat) / of_int t * 100)\<bar> \<le> 1"
proof -
  let ?q = "(of_int c :: rat) / of_int t"
  have q0: "0 \<le> ?q" using assms by simp
  have q1: "?q \<le> 1" using assms by simp
  note r = fl_percent_range [OF q0 q1]
  from r have "round (0::rat) \<le> round (fl (fl ?q * 100))" by (intro round_mono) simp
  then show "0 \<le> round (fl (fl ?q * 100))" by simp
  from r have "round (fl (fl ?q * 100)) \<le> round (100::rat)" by (intro round_mono) simp
  then show "round (fl (fl ?q * 100)) \<le> 100" by simp
  have "\<bar>fl (fl ?q * 100) - ?q * 100\<bar> \<le> 200 / 2 ^ 53" using q0 q1 by (rule fl_percent_error)
  also have "(200::rat) / 2 ^ 53 \<le> 1" by simp
  finally have "\<bar>fl (fl ?q * 100) - ?q * 100\<bar> \<le> 1" .
  then show "\<bar>round (fl (fl ?q * 100)) - round (?q * 100)\<bar> \<le> 1" by (rule round_close)
qed

lemma fl_of_int_pos:
  assumes "0 < n" "n \<le> 2 ^ 53"
  shows "fl (of_int n) = of_int n"
proof -
  let ?x = "of_int n :: rat"
  let ?e = "expo ?x"
  have x: "0 < ?x" using assms(1) by simp
  have b: "2 powi ?e \<le> ?x" "?x < 2 powi (?e + 1)" using expo_bounds [OF x] by auto
  have "?x \<le> of_int (2 ^ 53)" using assms(2) by (simp only: of_int_le_iff)
  then have x53: "?x \<le> 2 powi 53" by simp
  have e53: "?e \<le> 53"
  proof (rule ccontr)
    assume "\<not> ?e \<le> 53"
    then have "54 \<le> ?e" by simp
    then have "(2::rat) powi 54 \<le> 2 powi ?e" by (rule power_int_increasing) simp
    with b(1) x53 show False by simp
  qed
  show ?thesis
  proof (cases "?e = 53")
    case True
    with b(1) x53 have "?x = 2 powi 53" by simp
    then have "?x / 2 powi (?e - 52) = of_int (2 ^ 52)" using True by simp
    with x b show ?thesis by (rule fl_exact)
  next
    case False
    with e53 have le: "0 \<le> 52 - ?e" by simp
    have "?x / 2 powi (?e - 52) = ?x * 2 powi (52 - ?e)"
      using power_int_minus [of "2::rat" "?e - 52"] by (simp add: field_simps)
    also have "\<dots> = ?x * 2 ^ nat (52 - ?e)" using le by (simp add: power_int_nonneg_exp)
    also have "\<dots> = of_int (n * 2 ^ nat (52 - ?e))" by simp
    finally have "?x / 2 powi (?e - 52) = of_int (n * 2 ^ nat (52 - ?e))" .
    with x b show ?thesis by (rule fl_exact)
  qed
qed

lemma fl_numeral: "(numeral k :: int) \<le> 2 ^ 53 \<Longrightarrow> fl (numeral k) = numeral k"
  using fl_of_int_pos [of "numeral k"] by simp

lemma fl_strict:
  assumes "0 \<le> x" "x < y" "(x + y) / 2 ^ 53 < y - x"
  shows "fl x < fl y"
proof (cases "x = 0")
  case True
  then show ?thesis using assms(2) fl_pos [of y] by simp
next
  case False
  then have x: "0 < x" using assms(1) by simp
  then have y: "0 < y" using assms(2) by simp
  have ex: "\<bar>fl x - x\<bar> \<le> x / 2 ^ 53" using x by (rule fl_error)
  have ey: "\<bar>fl y - y\<bar> \<le> y / 2 ^ 53" using y by (rule fl_error)
  have "(x + y) / 2 ^ 53 = x / 2 ^ 53 + y / 2 ^ 53" by (rule add_divide_distrib)
  with assms(3) have "x / 2 ^ 53 + y / 2 ^ 53 < y - x" by simp
  with ex ey show ?thesis by linarith
qed

lemma fl_upper_lower:
  assumes "0 \<le> x"
  shows "fl x \<le> x + x / 2 ^ 53" and "x - x / 2 ^ 53 \<le> fl x"
proof -
  have "\<bar>fl x - x\<bar> \<le> x / 2 ^ 53"
  proof (cases "x = 0")
    case True
    then show ?thesis by simp
  next
    case False
    with assms have "0 < x" by simp
    then show ?thesis by (rule fl_error)
  qed
  then show "fl x \<le> x + x / 2 ^ 53" and "x - x / 2 ^ 53 \<le> fl x" by linarith+
qed

lemma percent_strict:
  fixes i n :: nat
  assumes "0 < n" "0 < i" "i \<le> 2 ^ 50"
  shows "fl (fl (of_nat (i - 1) / of_nat n) * 100) < fl (fl (of_nat i / of_nat n) * 100)"
proof -
  define d :: rat where "d = 1 / of_nat n"
  define x :: rat where "x = of_nat (i - 1) / of_nat n"
  define y :: rat where "y = of_nat i / of_nat n"
  define e :: rat where "e = 1 / 2 ^ 53"
  have d: "0 < d" using assms(1) by (simp add: d_def)
  have x0: "0 \<le> x" by (simp add: x_def)
  have yx: "y - x = d"
    using assms(2) by (simp add: x_def y_def d_def of_nat_diff diff_divide_distrib [symmetric])
  have xy: "x < y" using yx d by simp
  have y0: "0 \<le> y" using x0 xy by simp
  have "(of_nat (i - 1) :: rat) + of_nat i \<le> of_nat (2 ^ 51)"
    using assms(3) by (subst of_nat_add [symmetric], subst of_nat_le_iff) simp
  then have "((of_nat (i - 1) :: rat) + of_nat i) / of_nat n \<le> of_nat (2 ^ 51) / of_nat n"
    by (rule divide_right_mono) simp
  then have sum: "x + y \<le> 2 ^ 51 * d"
    by (simp add: x_def y_def d_def add_divide_distrib)
  have e: "0 < e" "e * 2 ^ 51 = 1 / 4" by (simp_all add: e_def)
  have xe: "x / 2 ^ 53 = x * e" "y / 2 ^ 53 = y * e" by (simp_all add: e_def)
  have se: "(x + y) * e \<le> d / 4"
  proof -
    have "(x + y) * e \<le> (2 ^ 51 * d) * e" using sum e(1) by (simp only: mult_le_cancel_right_pos)
    also have "\<dots> = d * (e * 2 ^ 51)" by (simp only: mult_ac)
    also have "\<dots> = d / 4" unfolding e(2) by simp
    finally show ?thesis .
  qed
  have se': "x * e + y * e \<le> d / 4" using se by (simp only: distrib_right)
  have xye: "(x + y) / 2 ^ 53 = (x + y) * e" by (simp add: e_def)
  have "(x + y) * e < d" using se d by linarith
  then have c1: "(x + y) / 2 ^ 53 < y - x" by (simp only: xye yx)
  have ab: "fl x < fl y" using x0 xy c1 by (rule fl_strict)
  have ux: "fl x \<le> x + x * e" using fl_upper_lower(1) [OF x0] by (simp only: xe)
  have uy: "fl y \<le> y + y * e" using fl_upper_lower(1) [OF y0] by (simp only: xe)
  have ly: "y - y * e \<le> fl y" using fl_upper_lower(2) [OF y0] by (simp only: xe)
  have a0: "0 \<le> fl x" using x0 by (rule fl_nonneg)
  have gap: "d - d / 4 \<le> fl y - fl x" using ux ly se' yx by linarith
  have "fl x + fl y \<le> (x + y) + (x * e + y * e)" using ux uy by linarith
  also have "\<dots> \<le> 2 ^ 51 * d + d / 4" using sum se' by linarith
  finally have s2: "fl x + fl y \<le> 2 ^ 51 * d + d / 4" .
  have "(fl x + fl y) * e \<le> (2 ^ 51 * d + d / 4) * e"
    using s2 e(1) by (simp only: mult_le_cancel_right_pos)
  also have "\<dots> = d * (e * 2 ^ 51) + d * (e / 4)" by (simp add: algebra_simps)
  also have "\<dots> = d / 4 + d * (e / 4)" unfolding e(2) by simp
  also have "\<dots> < d / 4 + d * (1 / 4)"
  proof -
    have "e / 4 < 1 / 4" by (simp add: e_def)
    then have "d * (e / 4) < d * (1 / 4)" using d by (simp only: mult_less_cancel_left_pos)
    then show ?thesis by simp
  qed
  finally have s3: "(fl x + fl y) * e < d / 2" by simp
  define t where "t = (fl x + fl y) * e"
  have t: "t < d / 2" using s3 by (simp only: t_def)
  have c2: "(fl x * 100 + fl y * 100) / 2 ^ 53 < fl y * 100 - fl x * 100"
  proof -
    have "(fl x * 100 + fl y * 100) / 2 ^ 53 = 100 * t"
      by (simp add: t_def e_def algebra_simps)
    also have "\<dots> < 100 * (d / 2)" using t by simp
    also have "\<dots> \<le> 100 * (fl y - fl x)"
    proof -
      have "d / 2 \<le> fl y - fl x" using gap d by linarith
      then show ?thesis by simp
    qed
    also have "\<dots> = fl y * 100 - fl x * 100" by (simp add: algebra_simps)
    finally show ?thesis .
  qed
  have "fl (fl x * 100) < fl (fl y * 100)"
    using _ _ c2 by (rule fl_strict) (use a0 ab in simp_all)
  then show ?thesis by (simp only: x_def y_def)
qed


text \<open>The doubles nearest to some quotients and products, for the examples below.\<close>

lemma fl_half: "fl (1 / 2) = 1 / 2"
  using fl_exact [of "1 / 2" "- 1" 4503599627370496] by simp

lemma fl_5_6: "fl (5 / 6) = 7505999378950827 / 9007199254740992"
  using fl_eqI [of "5 / 6" "- 1" 7505999378950827] by simp

lemma fl_5_6_100: "fl (187649984473770675 / 2251799813685248) = 2932031007402667 / 35184372088832"
  using fl_eqI [of "187649984473770675 / 2251799813685248" "6" 5864062014805334] by simp

lemma fl_23_40: "fl (23 / 40) = 2589569785738035 / 4503599627370496"
  using fl_eqI [of "23 / 40" "- 1" 5179139571476070] by simp

lemma fl_23_40_100: "fl (64739244643450875 / 1125899906842624) = 8092405580431359 / 140737488355328"
  using fl_eqI [of "64739244643450875 / 1125899906842624" "5" 8092405580431359] by simp

lemma fl_72_5: "fl (72 / 5) = 8106479329266893 / 562949953421312"
  using fl_eqI [of "72 / 5" "3" 8106479329266893] by simp

lemma fl_72_5_60: "fl (8106479329266893 / 33776997205278720) = 8646911284551353 / 36028797018963968"
  using fl_eqI [of "8106479329266893 / 33776997205278720" "- 3" 8646911284551353] by simp

lemma fl_3_by: "fl (108086391056891904 / 8646911284551353) = 7036874417766399 / 562949953421312"
  using fl_eqI [of "108086391056891904 / 8646911284551353" "3" 7036874417766399] by simp

lemmas fl_vals = fl_1 fl_numeral fl_half fl_5_6 fl_5_6_100 fl_23_40 fl_23_40_100 fl_72_5 fl_72_5_60
  fl_3_by

section \<open>Properties of calculateStats\<close>

lemma correct_le_total:
  "length (filter P (enumerate 0 typed)) \<le> length typed"
  using length_filter_le [of P "enumerate 0 typed"] by simp

lemma calculateStats_fields:
  "correctChars (calculateStats text now1 now2 typed idx start)
     = int (length (filter (\<lambda>(idx, ch). char_at text idx = Some ch) (enumerate 0 typed)))"
  "totalChars (calculateStats text now1 now2 typed idx start) = int (length typed)"
  "incorrectChars (calculateStats text now1 now2 typed idx start)
     = int (length typed)
       - int (length (filter (\<lambda>(idx, ch). char_at text idx = Some ch) (enumerate 0 typed)))"
  "accuracy (calculateStats text now1 now2 typed idx start)
     = (if 0 < int (length typed)
        then round (fl (fl (of_int (int (length (filter (\<lambda>(idx, ch). char_at text idx = Some ch)
                                                   (enumerate 0 typed))))
                            / of_int (int (length typed))) * 100))
        else 100)"
  "wpm (calculateStats text now1 now2 typed idx start)
     = (if 0 < fl (fl (fl (of_int now1 - of_int start) / 1000) / 60)
        then round (fl (of_int (int (length (split_ws (trim typed))))
                        / fl (fl (fl (of_int now1 - of_int start) / 1000) / 60)))
        else 0)"
  "timeTaken (calculateStats text now1 now2 typed idx start)
     = fl (fl (of_int now2 - of_int start) / 1000)"
  unfolding calculateStats_def Let_def by (simp_all only: typing_stats.simps)

lemma calculateStats_range:
  "0 \<le> accuracy (calculateStats text now1 now2 typed idx start)"
  "accuracy (calculateStats text now1 now2 typed idx start) \<le> 100"
  "0 \<le> wpm (calculateStats text now1 now2 typed idx start)"
proof -
  let ?P = "\<lambda>(idx, ch). char_at text idx = Some ch"
  let ?c = "int (length (filter ?P (enumerate 0 typed)))"
  let ?t = "int (length typed)"
  have c0: "0 \<le> ?c" by simp
  have ct: "?c \<le> ?t" using correct_le_total [of ?P typed] by simp
  show "0 \<le> accuracy (calculateStats text now1 now2 typed idx start)"
    unfolding calculateStats_fields using fl_percent_round(1) [OF c0 ct]
    by (cases "0 < ?t") simp_all
  show "accuracy (calculateStats text now1 now2 typed idx start) \<le> 100"
    unfolding calculateStats_fields using fl_percent_round(2) [OF c0 ct]
    by (cases "0 < ?t") simp_all
  let ?te = "fl (fl (fl (of_int now1 - of_int start) / 1000) / 60)"
  let ?wt = "int (length (split_ws (trim typed)))"
  show "0 \<le> wpm (calculateStats text now1 now2 typed idx start)"
  proof (cases "0 < ?te")
    case True
    then have "0 \<le> of_int ?wt / ?te" by (intro divide_nonneg_pos) simp_all
    then have "0 \<le> fl (of_int ?wt / ?te)" by (rule fl_nonneg)
    from round_mono [OF this] have "0 \<le> round (fl (of_int ?wt / ?te))" by simp
    with True show ?thesis unfolding calculateStats_fields by (simp only: if_True)
  next
    case False
    then show ?thesis unfolding calculateStats_fields by (simp only: if_False)
  qed
qed

text \<open>
  C10, as the code has it. For every typed string, passage, start time and pair of clock
  readings, the record that calculateStats returns has correctChars + incorrectChars =
  totalChars = the length of the typed string. When something was typed, its accuracy is
  \<open>Math.round\<close> of the double product \<open>(correctChars / totalChars) * 100\<close>, in which
  the quotient and the product are each rounded to the nearest double; that is within 1
  of the exactly computed and rounded percentage, but not always equal to it. When nothing
  was typed the accuracy is 100. The accuracy always lies between 0 and 100, and the wpm
  is never negative.
\<close>

theorem calculateStats_record:
  "correctChars (calculateStats text now1 now2 typed idx start)
     + incorrectChars (calculateStats text now1 now2 typed idx start)
     = totalChars (calculateStats text now1 now2 typed idx start)
   \<and> totalChars (calculateStats text now1 now2 typed idx start) = int (length typed)
   \<and> accuracy (calculateStats text now1 now2 typed idx start)
       = (if 0 < totalChars (calculateStats text now1 now2 typed idx start)
          then round (fl (fl (of_int (correctChars (calculateStats text now1 now2 typed idx start))
                              / of_int (totalChars (calculateStats text now1 now2 typed idx start)))
                          * 100))
          else 100)
   \<and> \<bar>accuracy (calculateStats text now1 now2 typed idx start)
        - (if 0 < totalChars (calculateStats text now1 now2 typed idx start)
           then round ((of_int (correctChars (calculateStats text now1 now2 typed idx start)) :: rat)
                        / of_int (totalChars (calculateStats text now1 now2 typed idx start)) * 100)
           else 100)\<bar> \<le> 1
   \<and> 0 \<le> accuracy (calculateStats text now1 now2 typed idx start)
   \<and> accuracy (calculateStats text now1 now2 typed idx start) \<le> 100
   \<and> 0 \<le> wpm (calculateStats text now1 now2 typed idx start)"
proof -
  let ?P = "\<lambda>(idx, ch). char_at text idx = Some ch"
  let ?c = "int (length (filter ?P (enumerate 0 typed)))"
  let ?t = "int (length typed)"
  let ?s = "calculateStats text now1 now2 typed idx start"
  have c0: "0 \<le> ?c" by simp
  have ct: "?c \<le> ?t" using correct_le_total [of ?P typed] by simp
  have cc: "correctChars ?s = ?c" and tc: "totalChars ?s = ?t"
    and ic: "incorrectChars ?s = ?t - ?c"
    by (simp_all only: calculateStats_fields)
  have ac: "accuracy ?s
      = (if 0 < ?t then round (fl (fl (of_int ?c / of_int ?t) * 100)) else 100)"
    by (simp only: calculateStats_fields)
  have near: "\<bar>accuracy ?s
        - (if 0 < ?t then round ((of_int ?c :: rat) / of_int ?t * 100) else 100)\<bar> \<le> 1"
    unfolding ac using fl_percent_round(3) [OF c0 ct] by (cases "0 < ?t") simp_all
  have sum: "correctChars ?s + incorrectChars ?s = totalChars ?s"
    unfolding cc ic tc by simp
  have ac': "accuracy ?s
      = (if 0 < totalChars ?s
         then round (fl (fl (of_int (correctChars ?s) / of_int (totalChars ?s)) * 100))
         else 100)"
    unfolding cc tc by (rule ac)
  have near': "\<bar>accuracy ?s
        - (if 0 < totalChars ?s
           then round ((of_int (correctChars ?s) :: rat) / of_int (totalChars ?s) * 100)
           else 100)\<bar> \<le> 1"
    unfolding cc tc by (rule near)
  note rng = calculateStats_range [of "text" now1 now2 typed idx start]
  from sum tc ac' near' rng show ?thesis by (intro conjI)
qed

section \<open>Properties of the JavaScript values\<close>

lemma str_simps [simp]: "str [] = []" "str (c # cs) = of_nat (of_char c) # str cs"
  by (simp_all add: str_def)

lemma backspace_length: "length (str ''Backspace'') = 9"
  by simp

lemma clamp_percent_range:
  "p \<noteq> NaN \<Longrightarrow> js_le (Fin 0) (math_max (Fin 0) (math_min (Fin 100) p))
     \<and> js_le (math_max (Fin 0) (math_min (Fin 100) p)) (Fin 100)"
  by (cases p) (auto simp: math_max_def math_min_def)

lemma clamp_percent_cases:
  "(js_le (Fin 0) p \<and> js_le p (Fin 100) \<longrightarrow> math_max (Fin 0) (math_min (Fin 100) p) = p)
   \<and> (js_le p (Fin 0) \<longrightarrow> math_max (Fin 0) (math_min (Fin 100) p) = Fin 0)
   \<and> (js_le (Fin 100) p \<longrightarrow> math_max (Fin 0) (math_min (Fin 100) p) = Fin 100)"
  by (cases p) (auto simp: math_max_def math_min_def)



lemma percent_of_not_NaN: "len \<noteq> 0 \<Longrightarrow> percent_of idx len \<noteq> NaN"
  by (simp add: percent_of_def)

section \<open>Properties of the client\<close>

text \<open>
  C9, as the code has it. A key press invokes onComplete only if the index after it has
  reached the passage length, and then with the statistics of the text typed so far,
  whatever its accuracy. Conversely, in an active component whose timer was started by an
  earlier key press, a key press with a key of at most one character invokes onComplete
  if and only if the index after it has reached the passage length. The index is the
  number of characters typed, as long as every key is non-empty.
\<close>

theorem handleKeyPress_completion:
  "(\<forall>s. snd (handleKeyPress text isActive nowS now1 now2 key st) = Some s \<longrightarrow>
       length text \<le> currentIndex (fst (handleKeyPress text isActive nowS now1 now2 key st))
       \<and> (\<exists>t. startTime st = Some t \<and> t \<noteq> 0 \<and>
            s = calculateStats text now1 now2
                  (typedText (fst (handleKeyPress text isActive nowS now1 now2 key st)))
                  (currentIndex (fst (handleKeyPress text isActive nowS now1 now2 key st))) t))
   \<and> (isActive \<and> started (startTime st) \<and> length key \<le> 1 \<longrightarrow>
        (snd (handleKeyPress text isActive nowS now1 now2 key st) \<noteq> None
          \<longleftrightarrow> length text \<le> currentIndex (fst (handleKeyPress text isActive nowS now1 now2 key st))))
   \<and> (currentIndex st = length (typedText st) \<and> key \<noteq> [] \<longrightarrow>
        currentIndex (fst (handleKeyPress text isActive nowS now1 now2 key st))
          = length (typedText (fst (handleKeyPress text isActive nowS now1 now2 key st))))"
proof -
  have bs: "length key \<le> 1 \<Longrightarrow> key \<noteq> str ''Backspace''"
    using backspace_length by auto
  have one: "key \<noteq> [] \<Longrightarrow> \<not> 1 < length key \<Longrightarrow> length key = 1"
    by (cases key) auto
  show ?thesis
    using bs one
    by (auto simp: handleKeyPress_def Let_def started_def split: option.splits if_splits)
qed

text \<open>
  C7. handleProgressUpdate emits at most one message, a progressUpdate carrying
  \<open>Math.max(0, Math.min(100, progress))\<close>, and only if the socket is there, the lobby
  status is racing and the connection is live. For every progress other than NaN that
  value lies in [0, 100]: it is the progress itself when that is in range and the nearest
  bound otherwise. The interval of the mounted TypingInterface is the only caller, and
  every message it makes the client emit is a progressUpdate with a value in [0, 100].
\<close>

theorem progressUpdate_clamped:
  "(snd (handleProgressUpdate p c) = []
      \<or> snd (handleProgressUpdate p c) = [ProgressUpdate (math_max (Fin 0) (math_min (Fin 100) p))])
   \<and> (snd (handleProgressUpdate p c) \<noteq> [] \<longrightarrow>
        socket c \<and> status (lobbyState c) = Racing \<and> isConnected c)
   \<and> (p \<noteq> NaN \<longrightarrow>
        js_le (Fin 0) (math_max (Fin 0) (math_min (Fin 100) p))
        \<and> js_le (math_max (Fin 0) (math_min (Fin 100) p)) (Fin 100))
   \<and> (js_le (Fin 0) p \<and> js_le p (Fin 100) \<longrightarrow> math_max (Fin 0) (math_min (Fin 100) p) = p)
   \<and> (js_le p (Fin 0) \<longrightarrow> math_max (Fin 0) (math_min (Fin 100) p) = Fin 0)
   \<and> (js_le (Fin 100) p \<longrightarrow> math_max (Fin 0) (math_min (Fin 100) p) = Fin 100)
   \<and> (\<forall>m \<in> set (snd (progress_tick c ts)).
        \<exists>v. m = ProgressUpdate v \<and> js_le (Fin 0) v \<and> js_le v (Fin 100))
   \<and> (snd (progress_tick c ts) \<noteq> [] \<longrightarrow> status (lobbyState c) = Racing \<and> isConnected c)"
proof -
  have a: "snd (handleProgressUpdate p c) = []
      \<or> snd (handleProgressUpdate p c) = [ProgressUpdate (math_max (Fin 0) (math_min (Fin 100) p))]"
    by (simp add: handleProgressUpdate_def Let_def)
  have b: "snd (handleProgressUpdate p c) \<noteq> [] \<longrightarrow>
        socket c \<and> status (lobbyState c) = Racing \<and> isConnected c"
    by (simp add: handleProgressUpdate_def Let_def)
  have t1: "\<forall>m \<in> set (snd (progress_tick c ts)).
        \<exists>v. m = ProgressUpdate v \<and> js_le (Fin 0) v \<and> js_le v (Fin 100)"
  proof (cases "typing_mounted c")
    case False
    then show ?thesis by (simp add: progress_tick_def)
  next
    case True
    then have ne: "length (raceText c) \<noteq> 0" by (simp add: typing_mounted_def)
    show ?thesis
      using True clamp_percent_range [OF percent_of_not_NaN [OF ne]]
      by (auto simp: progress_tick_def interval_progress_def handleProgressUpdate_def Let_def)
  qed
  have t2: "snd (progress_tick c ts) \<noteq> [] \<longrightarrow> status (lobbyState c) = Racing \<and> isConnected c"
    by (auto simp: progress_tick_def interval_progress_def handleProgressUpdate_def Let_def
        split: if_splits)
  show ?thesis
    using a b t1 t2 clamp_percent_range [of p] clamp_percent_cases [of p] by blast
qed







text \<open>
  A successful joinLobby of a client that had not joined sets hasJoined and wasInLobby,
  which are dependencies of the socket effect: after the join message the client closes
  the socket it has joined on and opens a new connection, and on the connect event of
  that connection it emits the join with the reconnect marker.
\<close>

lemma joinLobby_reopens:
  assumes "snd (joinLobby c) \<noteq> []" "\<not> (hasJoined c \<and> wasInLobby c)"
  shows "snd (joinLobby_button c)
      = [Emit (JoinLobby (trim (username c)) False), CloseSocket, OpenSocket]"
    and "snd (on_connect (fst (joinLobby_button c))) = [JoinLobby (trim (username c)) True]"
  using assms
  by (auto simp: joinLobby_button_def rerender_def joinLobby_def effect_deps_def on_connect_def
      split: if_splits)


section \<open>Properties of the coordinator\<close>

lemma map_upd_proj:
  assumes "\<And>p. g (f p) = g p"
  shows "map (g \<circ> f) ps = map g ps"
  using assms by (induction ps) auto

lemma lobby_step_roster:
  assumes "length (roster s) \<le> 6" "distinct (map displayName (roster s))"
  shows "length (roster (lobby_step s op)) \<le> 6
    \<and> distinct (map displayName (roster (lobby_step s op)))"
proof (cases op)
  case (Join name token)
  have m: "map (displayName \<circ> (\<lambda>p. if Some (pid p) = token \<and> connectionState p = DisconnectedGrace
             then p\<lparr>connectionState := Connected\<rparr> else p)) (roster s) = map displayName (roster s)"
    by (rule map_upd_proj) simp
  show ?thesis using assms Join
    by (simp add: m join_session_def new_participant_def)
next
  case (Leave i)
  have m: "map (displayName \<circ> (\<lambda>p. if pid p = i then p\<lparr>connectionState := Left\<rparr> else p)) (roster s)
      = map displayName (roster s)"
    by (rule map_upd_proj) simp
  have l: "length (filter (\<lambda>p. pid p \<noteq> i) (roster s)) \<le> 6"
    by (rule order_trans [OF length_filter_le assms(1)])
  show ?thesis using assms Leave l
    by (simp add: m leave_session_def distinct_map_filter)
next
  case (Disconnect i)
  have m: "map (displayName \<circ> (\<lambda>p. if pid p = i \<and> connectionState p = Connected
             then p\<lparr>connectionState := DisconnectedGrace\<rparr> else p)) (roster s)
      = map displayName (roster s)"
    by (rule map_upd_proj) simp
  show ?thesis using assms Disconnect by (simp add: m disconnect_def)
next
  case (GraceExpired i)
  have m: "map (displayName \<circ> (\<lambda>p. if pid p = i \<and> connectionState p = DisconnectedGrace
             then p\<lparr>connectionState := Left\<rparr> else p)) (roster s)
      = map displayName (roster s)"
    by (rule map_upd_proj) simp
  show ?thesis using assms GraceExpired by (simp add: m grace_expired_def)
next
  case (Phase st)
  then show ?thesis using assms by simp
qed

lemma run_lobby_roster:
  assumes "length (roster s) \<le> 6" "distinct (map displayName (roster s))"
  shows "length (roster (foldl lobby_step s ops)) \<le> 6
    \<and> distinct (map displayName (roster (foldl lobby_step s ops)))"
  using assms
proof (induction ops arbitrary: s)
  case Nil
  then show ?case by simp
next
  case (Cons op ops)
  from lobby_step_roster [OF Cons.prems, of op] Cons.IH [of "lobby_step s op"]
  show ?case by simp
qed

text \<open>
  C5. After every sequence of joins, leaves, disconnects, grace expiries and status
  changes on a new session, the roster has at most 6 entries and the display names of the
  participants that have not left are pairwise distinct. A join that does not restore a
  disconnected participant fails with LobbyFull when the roster has 6 entries and with
  NameTaken when the name is in the roster; a join fails in no other way, and a failed
  join leaves the session as it was.
\<close>

theorem roster_bounds:
  "length (roster (foldl lobby_step empty_session ops)) \<le> 6
   \<and> distinct (map displayName
        (filter (\<lambda>p. connectionState p \<noteq> Left) (roster (foldl lobby_step empty_session ops))))
   \<and> (\<not> reconnects token s \<and> 6 \<le> length (roster s) \<longrightarrow>
        join_session name token s = Inl LobbyFull)
   \<and> (\<not> reconnects token s \<and> length (roster s) < 6
        \<and> name \<in> set (map displayName (roster s)) \<longrightarrow>
        join_session name token s = Inl NameTaken)
   \<and> (\<forall>e. join_session name token s = Inl e \<longrightarrow>
        (e = LobbyFull \<or> e = NameTaken) \<and> lobby_step s (Join name token) = s)"
proof -
  have "length (roster empty_session) \<le> 6" "distinct (map displayName (roster empty_session))"
    by (simp_all add: empty_session_def)
  from run_lobby_roster [OF this, of ops]
  have 1: "length (roster (foldl lobby_step empty_session ops)) \<le> 6"
    and d: "distinct (map displayName (roster (foldl lobby_step empty_session ops)))"
    by simp_all
  from d have 2: "distinct (map displayName
        (filter (\<lambda>p. connectionState p \<noteq> Left) (roster (foldl lobby_step empty_session ops))))"
    by (rule distinct_map_filter)
  have 3: "\<not> reconnects token s \<and> 6 \<le> length (roster s) \<longrightarrow>
        join_session name token s = Inl LobbyFull"
    by (simp add: join_session_def)
  have 4: "\<not> reconnects token s \<and> length (roster s) < 6
        \<and> name \<in> set (map displayName (roster s)) \<longrightarrow>
        join_session name token s = Inl NameTaken"
    by (simp add: join_session_def)
  have 5: "\<forall>e. join_session name token s = Inl e \<longrightarrow>
        (e = LobbyFull \<or> e = NameTaken) \<and> lobby_step s (Join name token) = s"
    by (auto simp: join_session_def split: if_splits)
  show ?thesis using 1 2 3 4 5 by blast
qed


lemma ranked_pairs_simps [simp]:
  "ranked_pairs [] = []"
  "ranked_pairs (p # ps) = (case rank p of None \<Rightarrow> [] | Some r \<Rightarrow> [(pid p, r)]) @ ranked_pairs ps"
  "ranked_pairs (ps @ qs) = ranked_pairs ps @ ranked_pairs qs"
  by (simp_all add: ranked_pairs_def)

lemma assigned_ranked_pairs: "assigned s = ranked_pairs (roster s)"
  by (simp add: assigned_def)

lemma length_ranked_pairs:
  "length (ranked_pairs ps) = length (filter (\<lambda>p. rank p \<noteq> None) ps)"
  by (induction ps) (auto split: option.splits)

lemma ranked_pairs_map:
  assumes "\<And>p. pid (f p) = pid p" "\<And>p. rank (f p) = rank p"
  shows "ranked_pairs (map f ps) = ranked_pairs ps"
  using assms by (induction ps) (auto split: option.splits)

lemma fst_ranked_pairs: "fst ` set (ranked_pairs ps) \<subseteq> pid ` set ps"
  by (induction ps) (auto split: option.splits)

lemma update_absent:
  assumes "i \<notin> pid ` set ps"
  shows "map (\<lambda>q. if pid q = i then g q else q) ps = ps"
  using assms by (induction ps) auto

lemma finish_update:
  assumes "distinct (map pid ps)" "find (\<lambda>p. pid p = i) ps = Some p" "rank p = None"
  shows "ranked_pairs (map (\<lambda>q. if pid q = i
            then q\<lparr>finished := True, rank := Some r, finalStats := Some st\<rparr> else q) ps)
          = ranked_pairs (takeWhile (\<lambda>q. pid q \<noteq> i) ps) @ (i, r)
              # ranked_pairs (tl (dropWhile (\<lambda>q. pid q \<noteq> i) ps))
       \<and> ranked_pairs ps = ranked_pairs (takeWhile (\<lambda>q. pid q \<noteq> i) ps)
              @ ranked_pairs (tl (dropWhile (\<lambda>q. pid q \<noteq> i) ps))"
  using assms
proof (induction ps)
  case Nil
  then show ?case by simp
next
  case (Cons q qs)
  show ?case
  proof (cases "pid q = i")
    case True
    with Cons.prems have "p = q" "i \<notin> pid ` set qs" by auto
    with True Cons.prems show ?thesis by (simp add: update_absent)
  next
    case False
    with Cons show ?thesis by simp
  qed
qed


lemma check_all_finished_simps [simp]:
  "roster (check_all_finished s) = roster s"
  "nextId (check_all_finished s) = nextId s"
  "sess_status (check_all_finished s) = Waiting \<longleftrightarrow> sess_status s = Waiting"
  by (simp_all add: check_all_finished_def)

lemma assigned_check [simp]: "assigned (check_all_finished s) = assigned s"
  by (simp add: assigned_def)

lemma race_inv_check [simp]: "race_inv (check_all_finished s) = race_inv s"
  by (simp add: race_inv_def)

lemma next_rank_assigned: "next_rank s = Suc (length (assigned s))"
  by (simp add: next_rank_def assigned_ranked_pairs length_ranked_pairs)

lemma race_inv_map:
  assumes "race_inv s" "\<And>p. pid (f p) = pid p" "\<And>p. rank (f p) = rank p"
    "\<And>p. finished (f p) = finished p"
  shows "race_inv (s\<lparr>roster := map f (roster s)\<rparr>)"
    and "assigned (s\<lparr>roster := map f (roster s)\<rparr>) = assigned s"
proof -
  have pm: "map (pid \<circ> f) (roster s) = map pid (roster s)"
    by (rule map_upd_proj) (rule assms(2))
  show "race_inv (s\<lparr>roster := map f (roster s)\<rparr>)"
    using assms by (auto simp: race_inv_def pm)
  show "assigned (s\<lparr>roster := map f (roster s)\<rparr>) = assigned s"
    using assms(2,3) by (simp add: assigned_ranked_pairs ranked_pairs_map)
qed

lemma find_SomeD: "find P xs = Some x \<Longrightarrow> P x \<and> x \<in> set xs"
  by (induction xs) (auto split: if_splits)

lemma finished_step:
  assumes inv: "race_inv s" and acc: "raceFinished i st s = Inr (s', ev)"
  shows "race_inv s'"
    and "finish_log ev = [(i, next_rank s)]"
    and "i \<notin> fst ` set (assigned s)"
    and "set (assigned s') = insert (i, next_rank s) (set (assigned s))"
    and "length (assigned s') = Suc (length (assigned s))"
proof -
  let ?f = "\<lambda>q. if pid q = i
      then q\<lparr>finished := True, rank := Some (next_rank s), finalStats := Some st\<rparr> else q"
  from acc obtain p where f: "find (\<lambda>p. pid p = i) (roster s) = Some p"
    and ok: "sess_status s = Racing" "\<not> finished p"
    and ev: "ev = [ParticipantFinished i (next_rank s) st]"
    and ro: "roster s' = map ?f (roster s)"
    and ids: "nextId s' = nextId s"
    and st: "sess_status s' \<noteq> Waiting"
    by (auto simp: raceFinished_def Let_def split: if_splits option.splits)
  from find_SomeD [OF f] have p: "pid p = i" "p \<in> set (roster s)" by simp_all
  with inv ok have nr: "rank p = None" by (auto simp: race_inv_def)
  from inv have d: "distinct (map pid (roster s))" by (simp add: race_inv_def)
  note fu = finish_update [OF d f nr, where r = "next_rank s" and st = st]
  have pm: "map (pid \<circ> ?f) (roster s) = map pid (roster s)"
    by (rule map_upd_proj) simp
  show "race_inv s'"
    using inv ro ids st by (auto simp: race_inv_def pm)
  show "finish_log ev = [(i, next_rank s)]" using ev by simp
  show "i \<notin> fst ` set (assigned s)"
  proof
    assume "i \<in> fst ` set (assigned s)"
    then have "i \<in> fst ` set (ranked_pairs (takeWhile (\<lambda>q. pid q \<noteq> i) (roster s)))
        \<or> i \<in> fst ` set (ranked_pairs (tl (dropWhile (\<lambda>q. pid q \<noteq> i) (roster s))))"
      using fu by (auto simp: assigned_ranked_pairs)
    then have "i \<in> pid ` set (takeWhile (\<lambda>q. pid q \<noteq> i) (roster s))
        \<or> i \<in> pid ` set (tl (dropWhile (\<lambda>q. pid q \<noteq> i) (roster s)))"
      using fst_ranked_pairs by blast
    moreover have "i \<notin> pid ` set (takeWhile (\<lambda>q. pid q \<noteq> i) (roster s))"
      by (auto dest: set_takeWhileD)
    moreover have "i \<notin> pid ` set (tl (dropWhile (\<lambda>q. pid q \<noteq> i) (roster s)))"
    proof -
      obtain c cs where c: "dropWhile (\<lambda>q. pid q \<noteq> i) (roster s) = c # cs"
        using p by (cases "dropWhile (\<lambda>q. pid q \<noteq> i) (roster s)") (auto simp: dropWhile_eq_Nil_conv)
      then have ci: "pid c = i" using hd_dropWhile [of "\<lambda>q. pid q \<noteq> i" "roster s"] by auto
      have "distinct (map pid (takeWhile (\<lambda>q. pid q \<noteq> i) (roster s) @ c # cs))"
        using d c takeWhile_dropWhile_id [of "\<lambda>q. pid q \<noteq> i" "roster s"] by simp
      then show ?thesis using c ci by auto
    qed
    ultimately show False by blast
  qed
  show "set (assigned s') = insert (i, next_rank s) (set (assigned s))"
    using fu ro by (auto simp: assigned_ranked_pairs)
  show "length (assigned s') = Suc (length (assigned s))"
    using fu ro by (simp add: assigned_ranked_pairs)
qed


lemma race_inv_join:
  assumes "race_inv s" "join_session name token s = Inr s'"
  shows "race_inv s' \<and> assigned s' = assigned s"
proof (cases "reconnects token s")
  case True
  with assms(2) have s': "s' = s\<lparr>roster := map (\<lambda>p. if Some (pid p) = token
        \<and> connectionState p = DisconnectedGrace then p\<lparr>connectionState := Connected\<rparr> else p)
      (roster s)\<rparr>"
    by (simp add: join_session_def)
  show ?thesis unfolding s'
    using race_inv_map [OF assms(1), of "\<lambda>p. if Some (pid p) = token
        \<and> connectionState p = DisconnectedGrace then p\<lparr>connectionState := Connected\<rparr> else p"]
    by simp
next
  case False
  with assms(2) have s': "s' = s\<lparr>roster := roster s @ [new_participant (nextId s) name],
      nextId := Suc (nextId s)\<rparr>"
    by (simp add: join_session_def split: if_splits)
  show ?thesis unfolding s'
    using assms(1)
    by (auto simp: race_inv_def new_participant_def assigned_ranked_pairs)
qed

lemma race_step_inv:
  assumes inv: "race_inv s" and step: "race_step s m = (s', ev)"
  shows "race_inv s'"
    and "(finish_log ev = [] \<and> assigned s' = assigned s)
       \<or> (\<exists>i. finish_log ev = [(i, next_rank s)] \<and> i \<notin> fst ` set (assigned s)
            \<and> set (assigned s') = insert (i, next_rank s) (set (assigned s))
            \<and> length (assigned s') = Suc (length (assigned s)))"
proof -
  have "race_inv s' \<and> ((finish_log ev = [] \<and> assigned s' = assigned s)
       \<or> (\<exists>i. finish_log ev = [(i, next_rank s)] \<and> i \<notin> fst ` set (assigned s)
            \<and> set (assigned s') = insert (i, next_rank s) (set (assigned s))
            \<and> length (assigned s') = Suc (length (assigned s))))"
  proof (cases m)
    case (ProgressMsg i v)
    show ?thesis
    proof (cases "progressUpdate i v s")
      case (Inl e)
      with step ProgressMsg inv show ?thesis by auto
    next
      case (Inr r)
      then have "r = (s, []) \<or> r = (s\<lparr>roster := map (\<lambda>q. if pid q = i then q\<lparr>progress := v\<rparr> else q)
            (roster s)\<rparr>, [OpponentProgress i v])"
        by (auto simp: progressUpdate_def split: if_splits option.splits)
      then show ?thesis
        using step ProgressMsg Inr inv
          race_inv_map [OF inv, of "\<lambda>q. if pid q = i then q\<lparr>progress := v\<rparr> else q"]
        by auto
    qed
  next
    case (FinishedMsg i st)
    show ?thesis
    proof (cases "raceFinished i st s")
      case (Inl e)
      with step FinishedMsg inv show ?thesis by auto
    next
      case (Inr r)
      with step FinishedMsg have "raceFinished i st s = Inr (s', ev)" by simp
      from finished_step [OF inv this] show ?thesis by blast
    qed
  next
    case (LeaveMsg i)
    from inv have "sess_status s \<noteq> Waiting" by (simp add: race_inv_def)
    with step LeaveMsg have "s' = check_all_finished (s\<lparr>roster := map (\<lambda>p. if pid p = i
        then p\<lparr>connectionState := Left\<rparr> else p) (roster s)\<rparr>)" "ev = []"
      by (auto simp: leave_session_def)
    then show ?thesis
      using race_inv_map [OF inv, of "\<lambda>p. if pid p = i then p\<lparr>connectionState := Left\<rparr> else p"]
      by simp
  next
    case (DisconnectMsg i)
    with step have "s' = s\<lparr>roster := map (\<lambda>p. if pid p = i \<and> connectionState p = Connected
        then p\<lparr>connectionState := DisconnectedGrace\<rparr> else p) (roster s)\<rparr>" "ev = []"
      by (auto simp: disconnect_def)
    then show ?thesis
      using race_inv_map [OF inv, of "\<lambda>p. if pid p = i \<and> connectionState p = Connected
        then p\<lparr>connectionState := DisconnectedGrace\<rparr> else p"]
      by simp
  next
    case (ReconnectMsg name t)
    show ?thesis
    proof (cases "join_session name (Some t) s")
      case (Inl e)
      with step ReconnectMsg inv show ?thesis by auto
    next
      case (Inr r)
      with step ReconnectMsg have "s' = r" "ev = []" by auto
      with race_inv_join [OF inv Inr] show ?thesis by simp
    qed
  qed
  then show "race_inv s'"
    and "(finish_log ev = [] \<and> assigned s' = assigned s)
       \<or> (\<exists>i. finish_log ev = [(i, next_rank s)] \<and> i \<notin> fst ` set (assigned s)
            \<and> set (assigned s') = insert (i, next_rank s) (set (assigned s))
            \<and> length (assigned s') = Suc (length (assigned s)))"
    by blast+
qed

lemma finish_log_append: "finish_log (es @ fs) = finish_log es @ finish_log fs"
  by (induction es rule: finish_log.induct) auto

lemma run_race_ranks:
  assumes "race_inv s" "run_race ms s = (s', evs)"
  shows "race_inv s'
    \<and> map snd (finish_log evs)
        = [Suc (length (assigned s)) ..< Suc (length (assigned s)) + length (finish_log evs)]
    \<and> length (assigned s') = length (assigned s) + length (finish_log evs)
    \<and> set (assigned s') = set (assigned s) \<union> set (finish_log evs)
    \<and> distinct (map fst (finish_log evs))
    \<and> fst ` set (finish_log evs) \<inter> fst ` set (assigned s) = {}"
  using assms
proof (induction ms arbitrary: s s' evs)
  case Nil
  then show ?case by simp
next
  case (Cons m ms)
  obtain s1 ev where step: "race_step s m = (s1, ev)" by (cases "race_step s m")
  obtain s2 evs' where run: "run_race ms s1 = (s2, evs')" by (cases "run_race ms s1")
  from Cons.prems(2) step run have eq: "s' = s2" "evs = ev @ evs'" by simp_all
  note st = race_step_inv [OF Cons.prems(1) step]
  note ih = Cons.IH [OF st(1) run]
  from st(2) show ?case
  proof
    assume "finish_log ev = [] \<and> assigned s1 = assigned s"
    with ih eq show ?thesis by (simp add: finish_log_append)
  next
    assume "\<exists>i. finish_log ev = [(i, next_rank s)] \<and> i \<notin> fst ` set (assigned s)
            \<and> set (assigned s1) = insert (i, next_rank s) (set (assigned s))
            \<and> length (assigned s1) = Suc (length (assigned s))"
    then obtain i where i: "finish_log ev = [(i, next_rank s)]" "i \<notin> fst ` set (assigned s)"
      "set (assigned s1) = insert (i, next_rank s) (set (assigned s))"
      "length (assigned s1) = Suc (length (assigned s))" by blast
    have fl: "finish_log evs = (i, Suc (length (assigned s))) # finish_log evs'"
      using eq i(1) by (simp add: finish_log_append next_rank_assigned)
    from ih have a: "map snd (finish_log evs')
        = [Suc (Suc (length (assigned s))) ..< Suc (Suc (length (assigned s))) + length (finish_log evs')]"
      and b: "length (assigned s2) = Suc (length (assigned s)) + length (finish_log evs')"
      and c: "set (assigned s2) = insert (i, next_rank s) (set (assigned s)) \<union> set (finish_log evs')"
      and d: "distinct (map fst (finish_log evs'))"
      and e: "fst ` set (finish_log evs') \<inter> fst ` insert (i, next_rank s) (set (assigned s)) = {}"
      and inv2: "race_inv s2"
      by (simp_all add: i(3,4))
    have 1: "map snd (finish_log evs)
        = [Suc (length (assigned s)) ..< Suc (length (assigned s)) + length (finish_log evs)]"
    proof -
      have u: "[n ..< n + Suc k] = n # [Suc n ..< Suc n + k]" for n k :: nat
        using upt_conv_Cons [of n "n + Suc k"] by (simp del: upt_Suc)
      show ?thesis
        unfolding fl using a u [of "Suc (length (assigned s))" "length (finish_log evs')"]
        by (simp del: upt_Suc)
    qed
    have 2: "length (assigned s') = length (assigned s) + length (finish_log evs)"
      unfolding fl using b eq by simp
    have 3: "set (assigned s') = set (assigned s) \<union> set (finish_log evs)"
      unfolding fl using c eq by (auto simp: next_rank_assigned)
    have 4: "distinct (map fst (finish_log evs))"
      unfolding fl using d e by auto
    have 5: "fst ` set (finish_log evs) \<inter> fst ` set (assigned s) = {}"
      unfolding fl using e i(2) by auto
    show ?thesis using inv2 eq 1 2 3 4 5 by simp
  qed
qed


lemma lobby_inv_map:
  assumes "lobby_inv s" "\<And>p. pid (f p) = pid p" "\<And>p. rank (f p) = rank p"
    "\<And>p. finished (f p) = finished p"
  shows "lobby_inv (s\<lparr>roster := map f (roster s)\<rparr>)"
proof -
  have pm: "map (pid \<circ> f) (roster s) = map pid (roster s)"
    by (rule map_upd_proj) (rule assms(2))
  show ?thesis using assms by (auto simp: lobby_inv_def pm)
qed

lemma lobby_step_inv:
  assumes "lobby_inv s"
  shows "lobby_inv (lobby_step s op)"
proof (cases op)
  case (Join name token)
  show ?thesis
  proof (cases "reconnects token s")
    case True
    then show ?thesis
      using Join lobby_inv_map [OF assms, of "\<lambda>p. if Some (pid p) = token
        \<and> connectionState p = DisconnectedGrace then p\<lparr>connectionState := Connected\<rparr> else p"]
      by (simp add: join_session_def)
  next
    case False
    then show ?thesis using Join assms
      by (auto simp: join_session_def lobby_inv_def new_participant_def)
  qed
next
  case (Leave i)
  show ?thesis
  proof (cases "sess_status s = Waiting")
    case True
    then show ?thesis using Leave assms
      by (auto simp: leave_session_def lobby_inv_def distinct_map_filter)
  next
    case False
    then show ?thesis
      using Leave lobby_inv_map [OF assms, of "\<lambda>p. if pid p = i
        then p\<lparr>connectionState := Left\<rparr> else p"]
      by (simp add: leave_session_def)
  qed
next
  case (Disconnect i)
  then show ?thesis
    using lobby_inv_map [OF assms, of "\<lambda>p. if pid p = i \<and> connectionState p = Connected
        then p\<lparr>connectionState := DisconnectedGrace\<rparr> else p"]
    by (simp add: disconnect_def)
next
  case (GraceExpired i)
  then show ?thesis
    using lobby_inv_map [OF assms, of "\<lambda>p. if pid p = i \<and> connectionState p = DisconnectedGrace
        then p\<lparr>connectionState := Left\<rparr> else p"]
    by (simp add: grace_expired_def)
next
  case (Phase st)
  then show ?thesis using assms by (simp add: lobby_inv_def)
qed

lemma run_lobby_inv: "lobby_inv s \<Longrightarrow> lobby_inv (foldl lobby_step s ops)"
  by (induction ops arbitrary: s) (simp_all add: lobby_step_inv)

lemma lobby_inv_assigned: "lobby_inv s \<Longrightarrow> assigned s = []"
  by (simp add: lobby_inv_def assigned_def ranked_pairs_def)

lemma lobby_inv_race: "lobby_inv s \<Longrightarrow> sess_status s = Racing \<Longrightarrow> race_inv s"
  by (simp add: lobby_inv_def race_inv_def)

text \<open>
  C1. Take any session built by lobby operations that is Racing, and any list of
  messages of the race: completions, progress updates, leaves, disconnects and
  reconnects, in any order and with any repetition. The ranks granted along the run are
  1, 2, ..., k in the order in which the completions were accepted, whatever statistics
  the completions carry; no participant is granted two ranks; and the ranks held in the
  session afterwards are exactly the ranks granted: the set {1..k}, each held once.
\<close>

theorem ranks_in_acceptance_order:
  assumes "s = foldl lobby_step empty_session ops" and "sess_status s = Racing"
    and "run_race ms s = (s', evs)"
  shows "map snd (finish_log evs) = [1 ..< Suc (length (finish_log evs))]
    \<and> set (map snd (assigned s')) = {1 .. length (finish_log evs)}
    \<and> distinct (map snd (assigned s'))
    \<and> distinct (map fst (assigned s'))
    \<and> set (assigned s') = set (finish_log evs)
    \<and> distinct (map fst (finish_log evs))"
proof -
  have "lobby_inv empty_session" by (simp add: lobby_inv_def empty_session_def)
  then have li: "lobby_inv s" unfolding assms(1) by (rule run_lobby_inv)
  note r = run_race_ranks [OF lobby_inv_race [OF li assms(2)] assms(3)]
  let ?k = "length (finish_log evs)"
  from r have 1: "map snd (finish_log evs) = [1 ..< Suc ?k]"
    and len: "length (assigned s') = ?k"
    and 5: "set (assigned s') = set (finish_log evs)"
    and 6: "distinct (map fst (finish_log evs))"
    by (simp_all add: lobby_inv_assigned [OF li])
  have "set (map snd (assigned s')) = snd ` set (finish_log evs)" using 5 by simp
  also have "\<dots> = set (map snd (finish_log evs))" by simp
  also have "\<dots> = {1 .. ?k}" unfolding 1 by auto
  finally have 2: "set (map snd (assigned s')) = {1 .. ?k}" .
  have im2: "snd ` set (assigned s') = {1 .. ?k}" using 2 by simp
  have 3: "distinct (map snd (assigned s'))"
    by (rule card_distinct) (simp add: im2 len)
  have f: "fst ` set (assigned s') = fst ` set (finish_log evs)" using 5 by simp
  have "card (fst ` set (finish_log evs)) = ?k"
    using distinct_card [OF 6] by simp
  then have 4: "distinct (map fst (assigned s'))"
    by (intro card_distinct) (simp add: len f)
  show ?thesis using 1 2 3 4 5 6 by blast
qed


lemma find_map_pid:
  assumes "\<And>p. pid (f p) = pid p"
  shows "find (\<lambda>p. pid p = i) (map f ps) = map_option f (find (\<lambda>p. pid p = i) ps)"
  using assms by (induction ps) auto

lemma stored_progress_map:
  assumes "\<And>p. pid (f p) = pid p" "\<And>p. progress (f p) = progress p"
  shows "stored_progress i (s\<lparr>roster := map f (roster s)\<rparr>) = stored_progress i s"
  using assms by (simp add: stored_progress_def find_map_pid split: option.splits)

lemma stored_progress_status [simp]:
  "stored_progress i (s\<lparr>sess_status := x\<rparr>) = stored_progress i s"
  "stored_progress i (check_all_finished s) = stored_progress i s"
  by (simp_all add: stored_progress_def)

lemma progress_accept:
  assumes "progressUpdate j v s = Inr (s', ev)"
  shows "sess_status s' = sess_status s \<and> stored_progress i s \<le> stored_progress i s'
    \<and> (progress_log i ev = [] \<or> progress_log i ev = [stored_progress i s'])"
proof (cases "ev = []")
  case True
  with assms have "s' = s"
    by (auto simp: progressUpdate_def split: if_splits option.splits)
  with True show ?thesis by simp
next
  case False
  let ?g = "\<lambda>q. if pid q = j then q\<lparr>progress := v\<rparr> else q"
  from False assms obtain p where f: "find (\<lambda>p. pid p = j) (roster s) = Some p"
    and le: "progress p \<le> v" and s': "s' = s\<lparr>roster := map ?g (roster s)\<rparr>"
    and ev: "ev = [OpponentProgress j v]"
    by (auto simp: progressUpdate_def split: if_splits option.splits)
  have fm: "find (\<lambda>p. pid p = i) (map ?g (roster s))
      = map_option ?g (find (\<lambda>p. pid p = i) (roster s))"
    by (rule find_map_pid) simp
  show ?thesis
  proof (cases "i = j")
    case True
    with f le s' ev fm show ?thesis
      using find_SomeD [OF f] by (simp add: stored_progress_def)
  next
    case False
    have "stored_progress i s' = stored_progress i s"
    proof (cases "find (\<lambda>p. pid p = i) (roster s)")
      case None
      with fm s' show ?thesis by (simp add: stored_progress_def)
    next
      case (Some q)
      with find_SomeD [OF Some] False fm s' show ?thesis
        by (simp add: stored_progress_def)
    qed
    with False s' ev show ?thesis by simp
  qed
qed

lemma find_snoc:
  "find P (xs @ [y]) = (case find P xs of Some x \<Rightarrow> Some x | None \<Rightarrow> if P y then Some y else None)"
  by (induction xs) auto

lemma progress_step:
  assumes nw: "sess_status s \<noteq> Waiting" and step: "race_step s m = (s', ev)"
  shows "sess_status s' \<noteq> Waiting \<and> stored_progress i s \<le> stored_progress i s'
    \<and> (progress_log i ev = [] \<or> progress_log i ev = [stored_progress i s'])"
proof (cases m)
  case (ProgressMsg j v)
  show ?thesis
  proof (cases "progressUpdate j v s")
    case (Inl e)
    with step ProgressMsg nw show ?thesis by auto
  next
    case (Inr r)
    with step ProgressMsg have "progressUpdate j v s = Inr (s', ev)" by simp
    from progress_accept [OF this, of i] nw show ?thesis by simp
  qed
next
  case (FinishedMsg j st)
  show ?thesis
  proof (cases "raceFinished j st s")
    case (Inl e)
    with step FinishedMsg nw show ?thesis by auto
  next
    case (Inr r)
    let ?f = "\<lambda>q. if pid q = j
      then q\<lparr>finished := True, rank := Some (next_rank s), finalStats := Some st\<rparr> else q"
    from Inr step FinishedMsg have "roster s' = map ?f (roster s)"
      "sess_status s' \<noteq> Waiting" "ev = [ParticipantFinished j (next_rank s) st]"
      by (auto simp: raceFinished_def Let_def split: if_splits option.splits)
    moreover have "stored_progress i (s\<lparr>roster := map ?f (roster s)\<rparr>) = stored_progress i s"
      by (rule stored_progress_map) simp_all
    ultimately show ?thesis by (simp add: stored_progress_def)
  qed
next
  case (LeaveMsg j)
  with step nw have "s' = check_all_finished (s\<lparr>roster := map (\<lambda>p. if pid p = j
      then p\<lparr>connectionState := Left\<rparr> else p) (roster s)\<rparr>)" "ev = []"
    by (auto simp: leave_session_def)
  moreover have "stored_progress i (s\<lparr>roster := map (\<lambda>p. if pid p = j
      then p\<lparr>connectionState := Left\<rparr> else p) (roster s)\<rparr>) = stored_progress i s"
    by (rule stored_progress_map) simp_all
  ultimately show ?thesis using nw by simp
next
  case (DisconnectMsg j)
  with step have "s' = s\<lparr>roster := map (\<lambda>p. if pid p = j \<and> connectionState p = Connected
      then p\<lparr>connectionState := DisconnectedGrace\<rparr> else p) (roster s)\<rparr>" "ev = []"
    by (auto simp: disconnect_def)
  moreover have "stored_progress i (s\<lparr>roster := map (\<lambda>p. if pid p = j \<and> connectionState p = Connected
      then p\<lparr>connectionState := DisconnectedGrace\<rparr> else p) (roster s)\<rparr>) = stored_progress i s"
    by (rule stored_progress_map) simp_all
  ultimately show ?thesis using nw by simp
next
  case (ReconnectMsg name t)
  show ?thesis
  proof (cases "join_session name (Some t) s")
    case (Inl e)
    with step ReconnectMsg nw show ?thesis by auto
  next
    case (Inr r)
    with step ReconnectMsg have r: "s' = r" "ev = []" by auto
    show ?thesis
    proof (cases "reconnects (Some t) s")
      case True
      with Inr r have "s' = s\<lparr>roster := map (\<lambda>p. if Some (pid p) = Some t
          \<and> connectionState p = DisconnectedGrace then p\<lparr>connectionState := Connected\<rparr> else p)
        (roster s)\<rparr>"
        by (simp add: join_session_def)
      moreover have "stored_progress i (s\<lparr>roster := map (\<lambda>p. if Some (pid p) = Some t
          \<and> connectionState p = DisconnectedGrace then p\<lparr>connectionState := Connected\<rparr> else p)
        (roster s)\<rparr>) = stored_progress i s"
        by (rule stored_progress_map) simp_all
      ultimately show ?thesis using nw r by simp
    next
      case False
      with Inr r have "s' = s\<lparr>roster := roster s @ [new_participant (nextId s) name],
          nextId := Suc (nextId s)\<rparr>"
        by (simp add: join_session_def split: if_splits)
      then have "sess_status s' = sess_status s" "stored_progress i s' = stored_progress i s"
        by (simp_all add: stored_progress_def find_snoc new_participant_def split: option.splits)
      then show ?thesis using nw r by simp
    qed
  qed
qed

lemma progress_log_append: "progress_log i (es @ fs) = progress_log i es @ progress_log i fs"
  by (induction i es rule: progress_log.induct) auto

lemma run_race_progress:
  assumes "sess_status s \<noteq> Waiting" "run_race ms s = (s', evs)"
  shows "sorted (progress_log i evs)
    \<and> (\<forall>v \<in> set (progress_log i evs). stored_progress i s \<le> v)
    \<and> stored_progress i s \<le> stored_progress i s'"
  using assms
proof (induction ms arbitrary: s s' evs)
  case Nil
  then show ?case by simp
next
  case (Cons m ms)
  obtain s1 ev where step: "race_step s m = (s1, ev)" by (cases "race_step s m")
  obtain s2 evs' where run: "run_race ms s1 = (s2, evs')" by (cases "run_race ms s1")
  from Cons.prems(2) step run have eq: "evs = ev @ evs'" "s' = s2" by simp_all
  note st = progress_step [OF Cons.prems(1) step, of i]
  from st have nw: "sess_status s1 \<noteq> Waiting" by simp
  note ih = Cons.IH [OF nw run]
  from st have "progress_log i ev = [] \<or> progress_log i ev = [stored_progress i s1]" by simp
  then show ?case
  proof
    assume "progress_log i ev = []"
    with ih st eq show ?thesis by (auto simp: progress_log_append)
  next
    assume "progress_log i ev = [stored_progress i s1]"
    with ih st eq show ?thesis by (auto simp: progress_log_append)
  qed
qed

lemma waiting_step:
  assumes "sess_status s = Waiting" "race_step s m = (s', ev)"
  shows "sess_status s' = Waiting \<and> ev = []"
proof (cases m)
  case (ProgressMsg j v)
  with assms show ?thesis
    by (auto simp: progressUpdate_def split: if_splits option.splits)
next
  case (FinishedMsg j st)
  with assms show ?thesis
    by (auto simp: raceFinished_def Let_def split: if_splits option.splits)
next
  case (LeaveMsg j)
  with assms show ?thesis by (auto simp: leave_session_def)
next
  case (DisconnectMsg j)
  with assms show ?thesis by (auto simp: disconnect_def)
next
  case (ReconnectMsg name t)
  with assms show ?thesis
    by (auto simp: join_session_def split: if_splits sum.splits)
qed

lemma waiting_run:
  assumes "sess_status s = Waiting" "run_race ms s = (s', evs)"
  shows "evs = []"
  using assms
proof (induction ms arbitrary: s s' evs)
  case Nil
  then show ?case by simp
next
  case (Cons m ms)
  obtain s1 ev where step: "race_step s m = (s1, ev)" by (cases "race_step s m")
  obtain s2 evs' where run: "run_race ms s1 = (s2, evs')" by (cases "run_race ms s1")
  from waiting_step [OF Cons.prems(1) step] Cons.IH [OF _ run] Cons.prems(2) step run
  show ?case by simp
qed

lemma relayed_progress_sorted: "sorted (progress_log i (snd (run_race ms s)))"
proof (cases "sess_status s = Waiting")
  case True
  from waiting_run [OF True prod.collapse [symmetric]] show ?thesis by simp
next
  case False
  from run_race_progress [OF False prod.collapse [symmetric]] show ?thesis by simp
qed

lemma percent_of_mono:
  assumes "len \<noteq> 0" "a \<le> b"
  shows "js_le (percent_of a len) (percent_of b len)"
proof -
  have "(of_nat a :: rat) / of_nat len \<le> of_nat b / of_nat len"
    using assms(2) by (intro divide_right_mono) simp_all
  then have "fl (of_nat a / of_nat len) \<le> fl (of_nat b / of_nat len)"
    by (intro fl_mono) simp_all
  then have "fl (of_nat a / of_nat len) * 100 \<le> fl (of_nat b / of_nat len) * 100" by simp
  then have "fl (fl (of_nat a / of_nat len) * 100) \<le> fl (fl (of_nat b / of_nat len) * 100)"
    by (intro fl_mono) (simp_all add: fl_nonneg)
  then show ?thesis using assms(1) by (simp add: percent_of_def)
qed

text \<open>
  The values the coordinator relays for one participant never decrease along any run of
  messages, since it drops a stale update; nor does the progress it holds for a
  participant, once the session has left Waiting.
\<close>

lemma stored_progress_never_decreases:
  "sess_status s \<noteq> Waiting \<Longrightarrow> stored_progress i s \<le> stored_progress i (fst (run_race ms s))"
  using run_race_progress [OF _ prod.collapse [symmetric], of s i ms] by blast

lemma find_map_user:
  assumes "\<And>x. user_id (f x) = user_id x"
  shows "find (\<lambda>x. user_id x = u) (map f xs) = map_option f (find (\<lambda>x. user_id x = u) xs)"
  using assms by (induction xs) auto

lemma progress_of_update:
  "progress_of u (on_opponentProgress v p c)
     = (if u = v then map_option (\<lambda>_. p) (progress_of u c) else progress_of u c)"
proof -
  let ?f = "\<lambda>user. if user_id user = v then user\<lparr>user_progress := p\<rparr> else user"
  have f: "find (\<lambda>x. user_id x = u) (map ?f (users (lobbyState c)))
      = map_option ?f (find (\<lambda>x. user_id x = u) (users (lobbyState c)))"
    by (rule find_map_user) simp
  show ?thesis
  proof (cases "find (\<lambda>x. user_id x = u) (users (lobbyState c))")
    case None
    with f show ?thesis by (auto simp: progress_of_def on_opponentProgress_def)
  next
    case (Some x)
    from find_SomeD [OF Some] have "user_id x = u" by simp
    with f Some show ?thesis by (auto simp: progress_of_def on_opponentProgress_def)
  qed
qed

lemma observed_relay:
  assumes "inj uid" "progress_of (uid i) c = Some (Fin v0)" "sorted (v0 # progress_log i evs)"
  shows "\<exists>vs. observed (uid i) c (relay uid evs) = map (\<lambda>v. Some (Fin v)) (v0 # vs)
           \<and> sorted (v0 # vs)"
  using assms(2,3)
proof (induction evs arbitrary: c v0)
  case Nil
  then show ?case by simp
next
  case (Cons e es)
  show ?case
  proof (cases e)
    case (OpponentProgress j v)
    let ?c = "on_opponentProgress (uid j) (Fin v) c"
    show ?thesis
    proof (cases "j = i")
      case True
      have p: "progress_of (uid i) ?c = Some (Fin v)"
        using True Cons.prems(1) by (simp add: progress_of_update)
      have s: "sorted (v # progress_log i es)" and le: "v0 \<le> v"
        using Cons.prems(2) True OpponentProgress by simp_all
      from Cons.IH [OF p s] obtain vs
        where vs: "observed (uid i) ?c (relay uid es) = map (\<lambda>v. Some (Fin v)) (v # vs)"
          and so: "sorted (v # vs)" by blast
      have "observed (uid i) c (relay uid (e # es)) = map (\<lambda>v. Some (Fin v)) (v0 # v # vs)"
        using OpponentProgress True vs Cons.prems(1) by simp
      moreover have "sorted (v0 # v # vs)" using so le by auto
      ultimately show ?thesis by blast
    next
      case False
      then have ne: "uid i \<noteq> uid j" using assms(1) by (auto dest: injD)
      have p: "progress_of (uid i) ?c = Some (Fin v0)"
        using ne Cons.prems(1) by (simp add: progress_of_update)
      have s: "sorted (v0 # progress_log i es)"
        using Cons.prems(2) False OpponentProgress by simp
      from Cons.IH [OF p s] obtain vs
        where vs: "observed (uid i) ?c (relay uid es) = map (\<lambda>v. Some (Fin v)) (v0 # vs)"
          and so: "sorted (v0 # vs)" by blast
      have "observed (uid i) c (relay uid (e # es)) = map (\<lambda>v. Some (Fin v)) (v0 # v0 # vs)"
        using OpponentProgress vs Cons.prems(1) by simp
      moreover have "sorted (v0 # v0 # vs)" using so by auto
      ultimately show ?thesis by blast
    qed
  next
    case (ParticipantFinished j r st)
    with Cons show ?thesis by simp
  next
    case (RaceTimeoutEv m us)
    with Cons show ?thesis by simp
  qed
qed

lemma relayed_from_stored:
  assumes "v0 \<le> stored_progress i s"
  shows "sorted (v0 # progress_log i (snd (run_race ms s)))"
proof (cases "sess_status s = Waiting")
  case True
  from waiting_run [OF True prod.collapse [symmetric]] show ?thesis by simp
next
  case False
  from run_race_progress [OF False prod.collapse [symmetric], where i = i and ms = ms] assms
  show ?thesis by auto
qed

lemma observed_nondecreasing:
  assumes "inj uid" "progress_of (uid i) c = Some (Fin v0)" "v0 \<le> stored_progress i s"
  shows "\<exists>vs. observed (uid i) c (relay uid (snd (run_race ms s))) = map (\<lambda>v. Some (Fin v)) vs
           \<and> sorted vs"
  using observed_relay [OF assms(1,2) relayed_from_stored [OF assms(3)]] by blast

lemma inj_socket_id: "inj socket_id"
proof (rule injI)
  fix m n assume "socket_id m = socket_id n"
  then have "length (socket_id m) = length (socket_id n)" by simp
  then show "m = n" by (simp add: socket_id_def)
qed

lemma percent_in_range:
  assumes "len \<noteq> 0" "k \<le> len"
  shows "math_max (Fin 0) (math_min (Fin 100) (percent_of k len)) = percent_of k len"
proof -
  have "0 \<le> (of_nat k :: rat) / of_nat len" by simp
  moreover have "(of_nat k :: rat) / of_nat len \<le> 1" using assms by simp
  ultimately have "0 \<le> fl (fl (of_nat k / of_nat len) * 100)
      \<and> fl (fl (of_nat k / of_nat len) * 100) \<le> 100"
    by (rule fl_percent_range)
  then show ?thesis using assms(1) by (simp add: percent_of_def math_max_def math_min_def)
qed

lemma percent_of_strict:
  assumes "len \<noteq> 0" "0 < k" "k \<le> 2 ^ 50"
  shows "\<not> js_le (percent_of k len) (percent_of (k - 1) len)"
  using percent_strict [of len k] assms by (simp add: percent_of_def)

lemma tick_reports:
  assumes "typing_mounted c" "typing_active c" "socket c" "started (startTime ts)"
    and "currentIndex ts \<le> length (raceText c)"
  shows "snd (progress_tick c ts)
    = [ProgressUpdate (percent_of (currentIndex ts) (length (raceText c)))]"
proof -
  have ne: "length (raceText c) \<noteq> 0" using assms(1) by (simp add: typing_mounted_def)
  have "snd (progress_tick c ts)
      = [ProgressUpdate (math_max (Fin 0) (math_min (Fin 100)
           (percent_of (currentIndex ts) (length (raceText c)))))]"
    using assms(1-4)
    by (simp add: progress_tick_def interval_progress_def handleProgressUpdate_def Let_def
        typing_mounted_def typing_active_def)
  then show ?thesis by (simp only: percent_in_range [OF ne assms(5)])
qed

lemma backspace_state:
  assumes "isActive" "0 < currentIndex st" "started (startTime st)"
  shows "fst (handleKeyPress text isActive nowS now1 now2 (str ''Backspace'') st)
    = st\<lparr>typedText := butlast (typedText st), currentIndex := currentIndex st - 1\<rparr>"
  using assms by (simp add: handleKeyPress_def Let_def)

text \<open>
  C2, as the code has it. A key press other than Backspace never lowers the index, so
  the progress the client reports for itself, the index as a percentage of a non-empty
  passage, does not decrease across it. A Backspace in an active component with a
  positive index lowers the index by one, and the next report of the interval carries
  the percentage of the lowered index, which is lower than the one reported before (for
  every index up to 2^50). For another participant the client stores the progress that
  an opponentProgress message carries, as it is, and leaves the progress of everybody
  else alone; the coordinator relays for a participant only values that do not decrease,
  since it drops a stale update. So the values a client holds for another participant
  over the events of any run of the coordinator never decrease.
\<close>

theorem progress_monotone_except_backspace:
  "(key \<noteq> str ''Backspace'' \<longrightarrow>
      currentIndex st \<le> currentIndex (fst (handleKeyPress text isActive nowS now1 now2 key st))
      \<and> (text \<noteq> [] \<longrightarrow>
           js_le (percent_of (currentIndex st) (length text))
             (percent_of (currentIndex (fst (handleKeyPress text isActive nowS now1 now2 key st)))
                (length text))))
   \<and> (isActive \<and> 0 < currentIndex st \<longrightarrow>
        Suc (currentIndex (fst (handleKeyPress text isActive nowS now1 now2 (str ''Backspace'') st)))
          = currentIndex st)
   \<and> (typing_mounted c \<and> typing_active c \<and> socket c \<and> started (startTime st)
        \<and> 0 < currentIndex st \<and> currentIndex st \<le> length (raceText c) \<longrightarrow>
        snd (progress_tick c st)
          = [ProgressUpdate (percent_of (currentIndex st) (length (raceText c)))]
        \<and> snd (progress_tick c
                 (fst (handleKeyPress (raceText c) (typing_active c) nowS now1 now2
                         (str ''Backspace'') st)))
            = [ProgressUpdate (percent_of (currentIndex st - 1) (length (raceText c)))]
        \<and> js_le (percent_of (currentIndex st - 1) (length (raceText c)))
                 (percent_of (currentIndex st) (length (raceText c)))
        \<and> (currentIndex st \<le> 2 ^ 50 \<longrightarrow>
             \<not> js_le (percent_of (currentIndex st) (length (raceText c)))
                      (percent_of (currentIndex st - 1) (length (raceText c)))))
   \<and> map user_progress (users (lobbyState (on_opponentProgress userId p c)))
       = map (\<lambda>u. if user_id u = userId then p else user_progress u) (users (lobbyState c))
   \<and> map user_id (users (lobbyState (on_opponentProgress userId p c)))
       = map user_id (users (lobbyState c))
   \<and> (inj uid \<and> progress_of (uid i) c = Some (Fin v0) \<and> v0 \<le> stored_progress i s \<longrightarrow>
        sorted (progress_log i (snd (run_race ms s)))
        \<and> (\<exists>vs. observed (uid i) c (relay uid (snd (run_race ms s)))
                   = map (\<lambda>v. Some (Fin v)) vs
               \<and> sorted vs))"
proof -
  have 1: "key \<noteq> str ''Backspace'' \<longrightarrow>
      currentIndex st \<le> currentIndex (fst (handleKeyPress text isActive nowS now1 now2 key st))"
    by (auto simp: handleKeyPress_def Let_def)
  have mono: "key \<noteq> str ''Backspace'' \<longrightarrow> text \<noteq> [] \<longrightarrow>
           js_le (percent_of (currentIndex st) (length text))
             (percent_of (currentIndex (fst (handleKeyPress text isActive nowS now1 now2 key st)))
                (length text))"
    using 1 percent_of_mono [of "length text" "currentIndex st"] by simp
  have 2: "isActive \<and> 0 < currentIndex st \<longrightarrow>
        Suc (currentIndex (fst (handleKeyPress text isActive nowS now1 now2 (str ''Backspace'') st)))
          = currentIndex st"
    by (auto simp: handleKeyPress_def Let_def)
  have 3: "map user_progress (users (lobbyState (on_opponentProgress userId p c)))
       = map (\<lambda>u. if user_id u = userId then p else user_progress u) (users (lobbyState c))"
    by (simp add: on_opponentProgress_def comp_def if_distrib)
  have 4: "map user_id (users (lobbyState (on_opponentProgress userId p c)))
       = map user_id (users (lobbyState c))"
    by (simp add: on_opponentProgress_def comp_def if_distrib)
  have 5: "snd (progress_tick c st)
          = [ProgressUpdate (percent_of (currentIndex st) (length (raceText c)))]
        \<and> snd (progress_tick c
                 (fst (handleKeyPress (raceText c) (typing_active c) nowS now1 now2
                         (str ''Backspace'') st)))
            = [ProgressUpdate (percent_of (currentIndex st - 1) (length (raceText c)))]
        \<and> js_le (percent_of (currentIndex st - 1) (length (raceText c)))
                 (percent_of (currentIndex st) (length (raceText c)))
        \<and> (currentIndex st \<le> 2 ^ 50 \<longrightarrow>
             \<not> js_le (percent_of (currentIndex st) (length (raceText c)))
                      (percent_of (currentIndex st - 1) (length (raceText c))))"
    if h: "typing_mounted c" "typing_active c" "socket c" "started (startTime st)"
      "0 < currentIndex st" "currentIndex st \<le> length (raceText c)"
  proof -
    let ?st = "st\<lparr>typedText := butlast (typedText st), currentIndex := currentIndex st - 1\<rparr>"
    have ne: "length (raceText c) \<noteq> 0" using h(1) by (simp add: typing_mounted_def)
    have b: "fst (handleKeyPress (raceText c) (typing_active c) nowS now1 now2
                         (str ''Backspace'') st) = ?st"
      using h(2,5,4) by (rule backspace_state)
    have t1: "snd (progress_tick c st)
          = [ProgressUpdate (percent_of (currentIndex st) (length (raceText c)))]"
      using h(1,2,3,4,6) by (rule tick_reports)
    have "snd (progress_tick c ?st)
          = [ProgressUpdate (percent_of (currentIndex ?st) (length (raceText c)))]"
      using h by (intro tick_reports) simp_all
    then have t2: "snd (progress_tick c
                 (fst (handleKeyPress (raceText c) (typing_active c) nowS now1 now2
                         (str ''Backspace'') st)))
            = [ProgressUpdate (percent_of (currentIndex st - 1) (length (raceText c)))]"
      unfolding b by simp
    have le: "js_le (percent_of (currentIndex st - 1) (length (raceText c)))
                 (percent_of (currentIndex st) (length (raceText c)))"
      using ne by (intro percent_of_mono) simp_all
    have lt: "currentIndex st \<le> 2 ^ 50 \<longrightarrow>
             \<not> js_le (percent_of (currentIndex st) (length (raceText c)))
                      (percent_of (currentIndex st - 1) (length (raceText c)))"
      using percent_of_strict [OF ne h(5)] by blast
    from t1 t2 le lt show ?thesis by (intro conjI)
  qed
  have 6: "sorted (progress_log i (snd (run_race ms s)))
        \<and> (\<exists>vs. observed (uid i) c (relay uid (snd (run_race ms s)))
                   = map (\<lambda>v. Some (Fin v)) vs
               \<and> sorted vs)"
    if "inj uid" "progress_of (uid i) c = Some (Fin v0)" "v0 \<le> stored_progress i s"
    using relayed_progress_sorted [of i ms s] observed_nondecreasing [OF that] by blast
  from 1 mono 2 3 4 5 6 show ?thesis by blast
qed


lemma sublist_join: "n \<in> set us \<Longrightarrow> sublist n (join sep us)"
proof (induction sep us rule: join.induct)
  case (1 sep)
  then show ?case by simp
next
  case (2 sep x)
  then show ?case by simp
next
  case (3 sep x y ys)
  show ?case
  proof (cases "n = x")
    case True
    then show ?thesis by (simp add: sublist_append_rightI)
  next
    case False
    with 3 have "sublist n (join sep (y # ys))" by simp
    then have "sublist n (x @ sep @ join sep (y # ys))"
      by (simp add: sublist_append)
    then show ?thesis by simp
  qed
qed

lemma sublist_in_append: "sublist n zs \<Longrightarrow> sublist n (xs @ ys @ zs)"
  by (simp add: sublist_append)

text \<open>
  When the deadline is reached during Racing the session becomes Finished and the
  raceTimeout event carries the display name of every participant that has not finished.
\<close>

lemma deadline_names_unfinished:
  "sess_status s = Racing \<Longrightarrow>
     sess_status (fst (deadline_reached partial message s)) = Finished
     \<and> snd (deadline_reached partial message s)
         = [RaceTimeoutEv message (map displayName (filter (\<lambda>p. \<not> finished p) (roster s)))]
     \<and> (\<forall>p \<in> set (roster s). \<not> finished p \<longrightarrow>
           displayName p \<in> set (map displayName (filter (\<lambda>p. \<not> finished p) (roster s))))"
  by (auto simp: deadline_reached_def)

text \<open>
  A client that receives raceTimeout with a non-empty list stores, as its connection
  error, a message that contains every listed name.
\<close>

lemma timeout_names_stored:
  assumes "us \<noteq> []"
  shows "\<exists>e. connectionError (on_raceTimeout m (Some us) c) = Some e \<and> e \<noteq> []
           \<and> (\<forall>n \<in> set us. sublist n e)"
proof -
  have "\<forall>n \<in> set us. sublist n (m @ pre @ join sep us)" for pre sep
    by (auto intro: sublist_in_append sublist_join)
  from this [of "str ''. Some players did not finish: ''" "str '', ''"] assms
  show ?thesis by (simp add: on_raceTimeout_def)
qed

text \<open>
  The handler changes neither the view nor the reconnecting flag, so the message is on
  the screen exactly if the client is in the lobby view and not reconnecting.
\<close>

lemma timeout_display:
  assumes "us \<noteq> []"
  shows "current_view (on_raceTimeout m (Some us) c) = current_view c"
    and "displayed_error (on_raceTimeout m (Some us) c)
      = (if current_view c = LobbyView \<and> \<not> isReconnecting c
         then connectionError (on_raceTimeout m (Some us) c) else None)"
proof -
  show v: "current_view (on_raceTimeout m (Some us) c) = current_view c"
    using assms by (simp add: on_raceTimeout_def current_view_def)
  obtain e where e: "connectionError (on_raceTimeout m (Some us) c) = Some e" "e \<noteq> []"
    using timeout_names_stored [OF assms] by blast
  have r: "isReconnecting (on_raceTimeout m (Some us) c) = isReconnecting c"
    using assms by (simp add: on_raceTimeout_def)
  show "displayed_error (on_raceTimeout m (Some us) c)
      = (if current_view c = LobbyView \<and> \<not> isReconnecting c
         then connectionError (on_raceTimeout m (Some us) c) else None)"
    unfolding displayed_error_def v r e by (cases "current_view c") (simp_all add: e)
qed

text \<open>
  The coordinator, when it receives a race-again request of a connected participant of a
  Finished session, resets the passage, and the ranks and finished flags of the
  participants who remain, and is Waiting again; it accepts the request in no other
  status.
\<close>

lemma raceAgain_resets:
  "(sess_status s = Finished
      \<and> (\<exists>p \<in> set (roster s). pid p = i \<and> connectionState p = Connected) \<longrightarrow>
      (\<exists>s'. raceAgain i s = Inr s' \<and> sess_status s' = Waiting \<and> passageText s' = None
         \<and> (\<forall>p \<in> set (roster s'). rank p = None \<and> \<not> finished p)
         \<and> map pid (roster s') = map pid (filter (\<lambda>p. connectionState p \<noteq> Left) (roster s))
         \<and> map displayName (roster s')
             = map displayName (filter (\<lambda>p. connectionState p \<noteq> Left) (roster s))))
   \<and> (\<forall>s'. raceAgain i s = Inr s' \<longrightarrow> sess_status s = Finished)"
  by (auto simp: raceAgain_def comp_def split: if_splits)

text \<open>
  C6, as the code has it. The Race Again button sends no message to the coordinator, so
  no race-again request is conveyed. It resets the client's own view: results, race text,
  start time, own rank and standings are cleared, the local lobby state is waiting with
  no users, and hasJoined is cleared, while wasInLobby and the username stay as they
  were; the client then shows the lobby with the join form. Since hasJoined is a
  dependency of the socket effect, a client that had joined closes its socket and opens
  a new connection; on the connect event of that connection it emits nothing. The
  participant enters a race again only through joinLobby, which sends a join without the
  reconnect marker.
\<close>

theorem race_again_is_local:
  "(\<forall>m. Emit m \<notin> set (snd (raceAgain_button c)))
   \<and> snd (raceAgain_button c) = (if hasJoined c then [CloseSocket, OpenSocket] else [])
   \<and> status (lobbyState (fst (raceAgain_button c))) = Waiting
   \<and> users (lobbyState (fst (raceAgain_button c))) = []
   \<and> raceText (fst (raceAgain_button c)) = []
   \<and> raceStartTime (fst (raceAgain_button c)) = None
   \<and> raceResults (fst (raceAgain_button c)) = None
   \<and> myRank (fst (raceAgain_button c)) = None
   \<and> currentStandings (fst (raceAgain_button c)) = []
   \<and> \<not> hasJoined (fst (raceAgain_button c))
   \<and> wasInLobby (fst (raceAgain_button c)) = wasInLobby c
   \<and> username (fst (raceAgain_button c)) = username c
   \<and> join_form_shown (fst (raceAgain_button c))
   \<and> snd (on_connect (fst (raceAgain_button c))) = []
   \<and> (socket c \<and> trim (username c) \<noteq> [] \<longrightarrow>
        snd (joinLobby (fst (on_connect (fst (raceAgain_button c)))))
          = [JoinLobby (trim (username c)) False])"
  by (simp add: raceAgain_button_def rerender_def raceAgainClick_def effect_deps_def
      join_form_shown_def current_view_def on_connect_def joinLobby_def)

section \<open>The theorems at concrete inputs\<close>

text \<open>
  Typing "ab cd " on the passage "ab cx " for one minute: two words per minute, five of
  six characters correct, accuracy 83. With nothing typed the accuracy is 100. Three words
  in 14.4 seconds are 12 words per minute, although the exact quotient is 12.5: the
  minutes elapsed, computed in doubles, come out just above 0.24.
\<close>

theorem calculateStats_record_witness:
  "calculateStats (str ''ab cx '') 60000 61000 (str ''ab cd '') 6 0
     = \<lparr> wpm = 2, accuracy = 83, timeTaken = 61, correctChars = 5, incorrectChars = 1,
         totalChars = 6 \<rparr>
   \<and> accuracy (calculateStats (str ''ab'') 60000 61000 [] 0 0) = 100
   \<and> wpm (calculateStats (str ''a b c'') 14400 14400 (str ''a b c'') 5 0) = 12
   \<and> round ((3::rat) / (14400 / 1000 / 60)) = 13"
  using calculateStats_record [of "str ''ab cx ''" 60000 61000 "str ''ab cd ''" 6 0]
  by (simp add: calculateStats_def trim_def is_ws_def split_ws.simps Let_def enumerate_eq_zip
      char_at_def fl_vals round_def floor_eq_iff)

text \<open>
  The accuracy is not always the exactly computed percentage, rounded: with 23 of 40
  characters right the exact percentage is 57.5, which rounds to 58, but the double
  quotient 23 / 40 lies just below 0.575, its product with 100 is 57.49999999999999, and
  the accuracy is 57.
\<close>

theorem calculateStats_counterexample:
  "correctChars (calculateStats passage40 60000 61000 typed40 40 0) = 23
   \<and> totalChars (calculateStats passage40 60000 61000 typed40 40 0) = 40
   \<and> accuracy (calculateStats passage40 60000 61000 typed40 40 0) = 57
   \<and> round ((100::rat) * 23 / 40) = 58"
  by (simp add: calculateStats_fields passage40_def typed40_def enumerate_eq_zip
      char_at_def fl_vals round_def floor_eq_iff)

text \<open>
  Completion on the passage "ab" after typing "x" and then "y": the timer was started,
  the index reaches the passage length, onComplete is invoked, and the accuracy is 0.
\<close>

theorem handleKeyPress_completion_witness:
  "started (startTime typed_x) \<and> length (str ''y'') \<le> 1
   \<and> currentIndex typed_x = length (typedText typed_x)
   \<and> snd (handleKeyPress (str ''ab'') True 2000 61000 61001 (str ''y'') typed_x) \<noteq> None
   \<and> length (str ''ab'')
       \<le> currentIndex (fst (handleKeyPress (str ''ab'') True 2000 61000 61001 (str ''y'') typed_x))
   \<and> typedText (fst (handleKeyPress (str ''ab'') True 2000 61000 61001 (str ''y'') typed_x))
       = str ''xy''
   \<and> accuracy (the (snd (handleKeyPress (str ''ab'') True 2000 61000 61001 (str ''y'') typed_x))) = 0"
  using handleKeyPress_completion [of "str ''ab''" True 2000 61000 61001 "str ''y''" typed_x]
  by (simp add: handleKeyPress_def typed_x_def started_def Let_def calculateStats_def
      enumerate_eq_zip char_at_def)

text \<open>
  Without the condition on the timer the completion property fails, on a passage of one
  character: the first key press types it, the number of typed characters reaches the
  passage length, and onComplete is not invoked, because the handler still sees the start
  time of the render before the key press.
\<close>

theorem completion_counterexample:
  "currentIndex (fst (handleKeyPress (str ''a'') True 1000 1001 1002 (str ''a'') initial_typing))
     = length (str ''a'')
   \<and> length (typedText (fst (handleKeyPress (str ''a'') True 1000 1001 1002 (str ''a'') initial_typing)))
     = length (str ''a'')
   \<and> snd (handleKeyPress (str ''a'') True 1000 1001 1002 (str ''a'') initial_typing) = None"
  by (simp add: handleKeyPress_def initial_typing_def started_def Let_def)

text \<open>
  A progress of 150 is sent as 100 by a racing, connected client; the interval of a
  component that has typed one of two characters sends 50.
\<close>

theorem progressUpdate_clamped_witness:
  "snd (handleProgressUpdate (Fin 150) racing_client) = [ProgressUpdate (Fin 100)]
   \<and> socket racing_client \<and> status (lobbyState racing_client) = Racing
   \<and> isConnected racing_client
   \<and> js_le (Fin 100) (Fin 150)
   \<and> snd (progress_tick racing_client typed_a) = [ProgressUpdate (Fin 50)]"
  using progressUpdate_clamped [of "Fin 150" racing_client typed_a]
  by (simp add: handleProgressUpdate_def racing_client_def progress_tick_def typing_mounted_def
      typing_active_def interval_progress_def typed_a_def started_def percent_of_def fl_vals
      truthy_opt_def math_max_def math_min_def)






text \<open>
  A seventh join fails with LobbyFull and a second "ann" with NameTaken; the session is
  unchanged.
\<close>

theorem roster_bounds_witness:
  "\<not> reconnects None full_session \<and> 6 \<le> length (roster full_session)
   \<and> join_session (str ''gus'') None full_session = Inl LobbyFull
   \<and> lobby_step full_session (Join (str ''gus'') None) = full_session
   \<and> length (roster (lobby_step empty_session (Join (str ''ann'') None))) < 6
   \<and> str ''ann'' \<in> set (map displayName (roster (lobby_step empty_session (Join (str ''ann'') None))))
   \<and> join_session (str ''ann'') None (lobby_step empty_session (Join (str ''ann'') None))
       = Inl NameTaken
   \<and> length (roster (foldl lobby_step empty_session (six_joins @ [Join (str ''gus'') None]))) = 6"
  using roster_bounds [of six_joins None full_session "str ''gus''"]
    roster_bounds [of "[]" None "lobby_step empty_session (Join (str ''ann'') None)" "str ''ann''"]
  by (simp add: full_session_def six_joins_def empty_session_def join_session_def
      reconnects_def new_participant_def)

text \<open>
  Ann's completion is accepted first and gets rank 1 although she reports the longer
  time; bob's gets rank 2; ann's second completion is rejected.
\<close>

lemma two_racing_session:
  "foldl lobby_step empty_session two_racing
     = \<lparr> sess_status = Racing,
         roster = [new_participant 0 (str ''ann''), new_participant 1 (str ''bob'')],
         passageText = None, nextId = 2 \<rparr>"
  by (simp add: two_racing_def empty_session_def join_session_def reconnects_def
      new_participant_def)

lemma three_completions_log:
  "finish_log (snd (run_race three_completions (foldl lobby_step empty_session two_racing)))
     = [(0, 1), (1, 2)]"
  by (simp add: two_racing_session three_completions_def raceFinished_def progressUpdate_def
      valid_stats_def next_rank_def new_participant_def check_all_finished_def Let_def)

theorem ranks_in_acceptance_order_witness:
  "sess_status (foldl lobby_step empty_session two_racing) = Racing
   \<and> finish_log (snd (run_race three_completions (foldl lobby_step empty_session two_racing)))
       = [(0, 1), (1, 2)]
   \<and> set (assigned (fst (run_race three_completions (foldl lobby_step empty_session two_racing))))
       = {(0, 1), (1, 2)}"
proof -
  have st: "sess_status (foldl lobby_step empty_session two_racing) = Racing"
    by (simp add: two_racing_session)
  show ?thesis
    using ranks_in_acceptance_order [OF refl st prod.collapse [symmetric], of three_completions] st
    by (simp add: three_completions_log)
qed

text \<open>
  The progress a client reports for itself does decrease, at a Backspace: after typing
  "a" of the passage "ab" the client reports 50, and after a Backspace it reports 0.
\<close>

theorem progress_decreases_counterexample:
  "fst (handleKeyPress (str ''ab'') True 1000 1000 1000 (str ''a'') initial_typing) = typed_a
   \<and> snd (progress_tick racing_client typed_a) = [ProgressUpdate (Fin 50)]
   \<and> snd (progress_tick racing_client
             (fst (handleKeyPress (str ''ab'') True 2000 2000 2000 (str ''Backspace'') typed_a)))
       = [ProgressUpdate (Fin 0)]
   \<and> \<not> js_le (Fin 50) (Fin 0)"
  by (simp add: handleKeyPress_def initial_typing_def typed_a_def started_def Let_def progress_tick_def
      racing_client_def typing_mounted_def typing_active_def interval_progress_def
      handleProgressUpdate_def percent_of_def fl_vals truthy_opt_def math_max_def math_min_def)

text \<open>
  Typing "b" after "a" raises the index to 2 and a Backspace lowers the report from 50
  to 0. The coordinator relays 30 and 40 of ann's updates 30, 10, 40, and a client that
  holds 0 for ann then holds 30 and then 40. An opponentProgress for a user the client
  does not know changes nothing.
\<close>

theorem progress_monotone_except_backspace_witness:
  "str ''b'' \<noteq> str ''Backspace'' \<and> str ''ab'' \<noteq> []
   \<and> currentIndex (fst (handleKeyPress (str ''ab'') True 2000 2000 2000 (str ''b'') typed_a)) = 2
   \<and> typing_mounted racing_client \<and> typing_active racing_client \<and> socket racing_client
   \<and> started (startTime typed_a) \<and> 0 < currentIndex typed_a
   \<and> currentIndex typed_a \<le> length (raceText racing_client)
   \<and> currentIndex typed_a \<le> 2 ^ 50
   \<and> snd (progress_tick racing_client typed_a) = [ProgressUpdate (Fin 50)]
   \<and> snd (progress_tick racing_client
             (fst (handleKeyPress (str ''ab'') True 2000 2000 2000 (str ''Backspace'') typed_a)))
       = [ProgressUpdate (Fin 0)]
   \<and> map user_progress (users (lobbyState (on_opponentProgress (str ''s11'') (Fin 70) racing_client)))
       = [Fin 0, Fin 50]
   \<and> inj socket_id \<and> progress_of (socket_id 0) racing_client = Some (Fin 0)
   \<and> stored_progress 0 (foldl lobby_step empty_session two_racing) = 0
   \<and> relay socket_id (snd (run_race three_updates (foldl lobby_step empty_session two_racing)))
       = [(str ''s1'', Fin 30), (str ''s1'', Fin 40)]
   \<and> observed (socket_id 0) racing_client
         (relay socket_id (snd (run_race three_updates (foldl lobby_step empty_session two_racing))))
       = [Some (Fin 0), Some (Fin 30), Some (Fin 40)]"
  using progress_monotone_except_backspace [of "str ''b''" typed_a "str ''ab''" True 2000 2000 2000
      racing_client "str ''s11''" "Fin 70" socket_id 0 0
      "foldl lobby_step empty_session two_racing" three_updates]
    inj_socket_id
  by (simp add: handleKeyPress_def typed_a_def started_def Let_def racing_client_def
      on_opponentProgress_def progress_tick_def typing_mounted_def typing_active_def
      interval_progress_def handleProgressUpdate_def percent_of_def fl_vals truthy_opt_def
      math_max_def math_min_def socket_id_def progress_of_def stored_progress_def
      two_racing_session three_updates_def progressUpdate_def new_participant_def)

text \<open>Of the updates 30, 10, 40 of one participant the coordinator relays 30 and 40.\<close>

lemma three_updates_log:
  "progress_log 0 (snd (run_race three_updates (foldl lobby_step empty_session two_racing)))
     = [30, 40]"
  by (simp add: two_racing_session three_updates_def progressUpdate_def new_participant_def)

text \<open>
  No race-again request reaches the coordinator: on a finished race, with the connection
  live, the Race Again button emits no message; all that leaves the client is the closing
  of its socket and the opening of a new connection, on which it stays silent.
\<close>

theorem race_again_counterexample:
  "status (lobbyState finished_client) = Finished \<and> isConnected finished_client
   \<and> socket finished_client
   \<and> snd (raceAgain_button finished_client) = [CloseSocket, OpenSocket]
   \<and> snd (on_connect (fst (raceAgain_button finished_client))) = []"
  by (simp add: finished_client_def racing_client_def raceAgain_button_def rerender_def
      raceAgainClick_def effect_deps_def on_connect_def)

text \<open>
  The button of a client that shows the results of a finished race leaves a waiting
  lobby view with the join form; the client's wasInLobby stays set; joining again as
  " ann " sends a join for "ann" without the reconnect marker.
\<close>

theorem race_again_is_local_witness:
  "socket finished_client \<and> trim (username finished_client) \<noteq> []
   \<and> hasJoined finished_client
   \<and> current_view finished_client = ResultsView
   \<and> snd (raceAgain_button finished_client) = [CloseSocket, OpenSocket]
   \<and> current_view (fst (raceAgain_button finished_client)) = LobbyView
   \<and> status (lobbyState (fst (raceAgain_button finished_client))) = Waiting
   \<and> \<not> hasJoined (fst (raceAgain_button finished_client))
   \<and> wasInLobby (fst (raceAgain_button finished_client))
   \<and> snd (joinLobby (fst (on_connect (fst (raceAgain_button finished_client)))))
       = [JoinLobby (str ''ann'') False]"
  using race_again_is_local [of finished_client]
  by (simp add: finished_client_def racing_client_def trim_def is_ws_def current_view_def
      join_form_shown_def)

text \<open>
  In the finished race of ann (rank 1) and bob (left), ann's race-again request leaves a
  Waiting session with ann alone, unranked and unfinished.
\<close>

lemma finished_session_eq:
  "finished_session
     = \<lparr> sess_status = Finished,
         roster = [(new_participant 0 (str ''ann''))
                     \<lparr>finished := True, rank := Some 1, finalStats := Some (60, 92, 60)\<rparr>,
                   (new_participant 1 (str ''bob''))\<lparr>connectionState := Left\<rparr>],
         passageText = None, nextId = 2 \<rparr>"
  by (simp add: finished_session_def two_racing_session raceFinished_def valid_stats_def
      next_rank_def new_participant_def check_all_finished_def leave_session_def Let_def)

lemma raceAgain_finished_session:
  "raceAgain 0 finished_session
     = Inr \<lparr> sess_status = Waiting, roster = [new_participant 0 (str ''ann'')],
             passageText = None, nextId = 2 \<rparr>"
  by (simp add: finished_session_eq raceAgain_def new_participant_def)

text \<open>
  C8, at the input where the code departs from it. The deadline after ann has finished
  names bob, the only participant that has not finished. A client that is in the race
  when this raceTimeout arrives stores the message with bob's name as its connection
  error, but it shows the race track, which renders no connection error: no message is
  displayed, and none is once the results have arrived. The lobby view, which does
  render the connection error, would display the same message.
\<close>

theorem timeout_message_not_displayed:
  "snd (deadline_reached (\<lambda>p. (0, 0, 120)) (str ''Time is up'')
          (fst (run_race [FinishedMsg 0 (60, 92, 60)] (foldl lobby_step empty_session two_racing))))
     = [RaceTimeoutEv (str ''Time is up'') [str ''bob'']]
   \<and> current_view racing_client = RaceTrackView
   \<and> connectionError (on_raceTimeout (str ''Time is up'') (Some [str ''bob'']) racing_client)
       = Some (str ''Time is up. Some players did not finish: bob'')
   \<and> sublist (str ''bob'') (str ''Time is up. Some players did not finish: bob'')
   \<and> displayed_error (on_raceTimeout (str ''Time is up'') (Some [str ''bob'']) racing_client)
       = None
   \<and> displayed_error (on_raceTimeout (str ''Time is up'') (Some [str ''bob'']) finished_client)
       = None
   \<and> displayed_error
        (on_raceTimeout (str ''Time is up'') (Some [str ''bob''])
           (racing_client\<lparr>lobbyState := (lobbyState racing_client)\<lparr>status := Waiting\<rparr>\<rparr>))
       = Some (str ''Time is up. Some players did not finish: bob'')"
proof -
  have sub: "sublist (str ''bob'') (str ''Time is up. Some players did not finish: bob'')"
    using sublist_in_append [of "str ''bob''" "str ''bob''" "str ''Time is up''"
        "str ''. Some players did not finish: ''"]
    by simp
  show ?thesis
    using sub
    by (simp add: two_racing_session raceFinished_def valid_stats_def
        next_rank_def new_participant_def check_all_finished_def Let_def deadline_reached_def
        on_raceTimeout_def displayed_error_def current_view_def racing_client_def
        finished_client_def)
qed

end
